theory Spec2Isabelle
  imports Complex_Main
begin

section \<open>The environment of the simulator\<close>

text \<open>
  The simulator (\<^verbatim>\<open>src/iits.py\<close>) talks to three things outside itself: the wall
  clock (\<^verbatim>\<open>time.time\<close>, \<^verbatim>\<open>time.sleep\<close>), the pseudo-random generator
  (\<^verbatim>\<open>random\<close>) and the MQTT client library (\<^verbatim>\<open>paho.mqtt.client\<close>). They are
  gathered in one record, the world, which every modelled method takes and returns.

  \<^item> Time is a rational number of seconds. Only \<^verbatim>\<open>time.sleep\<close> and a timer's delay let
    time pass; every other statement takes no time.
  \<^item> The random generator is a stream of raw draws \<open>rnd\<close> read at position \<open>rpos\<close>.
  \<^item> A client object is the number of the \<^verbatim>\<open>mqtt.Client(...)\<close> construction that made
    it. Whether its \<^verbatim>\<open>connect\<close> returns or raises is fixed by \<open>connect_ok\<close>; what the
    k-th \<^verbatim>\<open>publish\<close> call does is fixed by \<open>publish_res\<close>. The client-id string, the
    broker address and the port do not influence any of this and are left out.
    \<^verbatim>\<open>loop_start\<close>, \<^verbatim>\<open>loop_stop\<close> and \<^verbatim>\<open>disconnect\<close> return a status code and do
    not raise.
  \<^item> The run-flag of an actor is written by another thread (the orchestrator's
    \<^verbatim>\<open>stop()\<close>). \<open>stop_at\<close> is the time of that call, if there is one; the actor sees
    it at the next test of its loop condition. For the orchestrator's own \<^verbatim>\<open>run()\<close>,
    which no other thread stops, \<open>stop_at\<close> is the time at which the user interrupts the
    process (\<^verbatim>\<open>KeyboardInterrupt\<close>), if that happens.
  \<^item> \<open>timers\<close> holds the timers that have been started and have not fired yet, each
    with the time at which it is due. They fire while the thread that started them
    sleeps.
  \<^item> Every call that leaves the program (a log line, a broker call, a sleep, a thread
    start with the time of the start) is appended to \<open>trace\<close>.
\<close>

datatype level = INFO | WARNING | ERROR

datatype exn = ConnectionError | PublishError | ZeroDivisionError | ValueError | KeyboardInterrupt

datatype reading_value = IntV int | FloatV rat

record reading =
  r_device :: string
  r_type :: string
  r_hardware :: string
  r_value :: reading_value
  r_unit :: string
  r_timestamp :: rat

datatype payload = Text string | Json reading

datatype pub_result = PubOk | PubErr int | PubRaise

text \<open>The log lines of the program, one constructor per \<^verbatim>\<open>logger\<close> call, with the
  interpolated values as arguments.\<close>

datatype message =
    DevicePublished string string reading
  | DevicePublishFailed string int
  | DeviceError string exn
  | BruteSuccess string string
  | BruteStarting
  | BruteProgress nat
  | BruteError exn
  | BruteFinished nat
  | FloodConnections nat
  | FloodNoConnections
  | FloodPublished nat
  | FloodPublishError exn
  | FloodStarting string
  | FloodUnknownType string
  | FloodFinished nat
  | CreatingDevices int
  | DevicesCreated nat
  | StartingDevices
  | ConfiguringBruteForce
  | ConfiguringFlood string
  | StartingSimulation int
  | SchedulingBruteForce int
  | SchedulingFlood int
  | RunningSimulation int int
  | SimulationInterrupted
  | StoppingSimulation
  | SimulationStopped

datatype timer_action = StartBruteforceAttack | StartDdosAttack

datatype thread_target = DeviceThread nat | BruteForceThread | FloodThread

datatype event =
    LogLine level message
  | Connect nat bool
  | Disconnect nat
  | LoopStart nat
  | LoopStop nat
  | Publish nat string payload pub_result
  | Sleep rat
  | Spawn rat thread_target

record world =
  now :: rat
  stop_at :: "rat option"
  connect_ok :: "nat \<Rightarrow> bool"
  publish_res :: "nat \<Rightarrow> pub_result"
  rnd :: "nat \<Rightarrow> nat"
  rpos :: nat
  n_client :: nat
  n_publish :: nat
  timers :: "(rat \<times> timer_action) list"
  trace :: "event list"

definition emit :: "event \<Rightarrow> world \<Rightarrow> world" where
  "emit e w = w\<lparr>trace := trace w @ [e]\<rparr>"

definition logger :: "level \<Rightarrow> message \<Rightarrow> world \<Rightarrow> world" where
  "logger l m w = emit (LogLine l m) w"

text \<open>\<^verbatim>\<open>time.sleep(x)\<close> for \<open>x \<ge> 0\<close> (a negative argument raises \<^verbatim>\<open>ValueError\<close>; the
  one caller that can pass one tests for it first).\<close>

definition sleep :: "rat \<Rightarrow> world \<Rightarrow> world" where
  "sleep x w = emit (Sleep x) (w\<lparr>now := now w + x\<rparr>)"

definition draw :: "world \<Rightarrow> nat \<times> world" where
  "draw w = (rnd w (rpos w), w\<lparr>rpos := Suc (rpos w)\<rparr>)"

text \<open>\<^verbatim>\<open>random.randint(a, b)\<close>: an integer of \<open>[a, b]\<close>, both ends included.\<close>

definition randint :: "int \<Rightarrow> int \<Rightarrow> world \<Rightarrow> int \<times> world" where
  "randint a b w = (a + int (fst (draw w) mod nat (b - a + 1)), snd (draw w))"

text \<open>\<^verbatim>\<open>random.choice(xs)\<close> for a non-empty \<open>xs\<close>.\<close>

definition choice :: "'a list \<Rightarrow> world \<Rightarrow> 'a \<times> world" where
  "choice xs w = (xs ! (fst (draw w) mod length xs), snd (draw w))"

text \<open>\<^verbatim>\<open>random.random()\<close>: a multiple of \<open>2\<^sup>-\<^sup>5\<^sup>3\<close> in \<open>[0, 1)\<close>; and
  \<^verbatim>\<open>random.uniform(a, b) = a + (b - a) * random()\<close>, computed here in the rationals.\<close>

definition random_unit :: "world \<Rightarrow> rat \<times> world" where
  "random_unit w = (of_nat (fst (draw w) mod 2 ^ 53) / 2 ^ 53, snd (draw w))"

definition uniform :: "rat \<Rightarrow> rat \<Rightarrow> world \<Rightarrow> rat \<times> world" where
  "uniform a b w = (a + (b - a) * fst (random_unit w), snd (random_unit w))"

text \<open>\<^verbatim>\<open>round(x, 2)\<close>: the nearest multiple of \<open>1/100\<close>, a tie going to the even
  neighbour.\<close>

definition round_half_even :: "rat \<Rightarrow> int" where
  "round_half_even y =
     (let f = \<lfloor>y\<rfloor>; r = y - of_int f
      in if r < 1 / 2 then f else if 1 / 2 < r then f + 1 else if even f then f else f + 1)"

definition round2 :: "rat \<Rightarrow> rat" where
  "round2 x = of_int (round_half_even (x * 100)) / 100"

definition new_client :: "world \<Rightarrow> nat \<times> world" where
  "new_client w = (n_client w, w\<lparr>n_client := Suc (n_client w)\<rparr>)"

text \<open>Whether another thread has called the actor's \<^verbatim>\<open>stop()\<close> since the actor's
  \<^verbatim>\<open>start\<close> began at \<open>t0\<close>.\<close>

definition stop_due :: "rat \<Rightarrow> world \<Rightarrow> bool" where
  "stop_due t0 w = (case stop_at w of None \<Rightarrow> False | Some ts \<Rightarrow> t0 \<le> ts \<and> ts \<le> now w)"

section \<open>Simulated IoT devices\<close>

record IoTDevice =
  dev_id :: string
  dev_type :: string
  dev_hardware :: string
  dev_running :: bool
  topic_pub :: string
  topic_sub :: string
  dev_client :: nat

text \<open>The unit of a temperature reading, as the bytes of the source's string literal.\<close>

definition unit_celsius :: string where
  "unit_celsius = [char_of (195::nat), char_of (130::nat), char_of (194::nat), char_of (176::nat), CHR ''C'']"

text \<open>\<^verbatim>\<open>IoTDevice.__init__\<close>: the run-flag starts set; one draw goes into the client id.\<close>

definition IoTDevice_init :: "string \<Rightarrow> string \<Rightarrow> string \<Rightarrow> world \<Rightarrow> IoTDevice \<times> world" where
  "IoTDevice_init device_id device_type hardware_type w =
     (let (suffix, w1) = randint 1000 9999 w;
          (c, w2) = new_client w1
      in (\<lparr>dev_id = device_id, dev_type = device_type, dev_hardware = hardware_type,
           dev_running = True,
           topic_pub = ''iot/sensor/'' @ device_type @ ''/'' @ device_id,
           topic_sub = ''iot/sensor/'' @ device_type @ ''/'' @ device_id @ ''/cmd'',
           dev_client = c\<rparr>, w2))"

text \<open>\<^verbatim>\<open>IoTDevice.generate_data\<close>.\<close>

definition generate_data :: "IoTDevice \<Rightarrow> world \<Rightarrow> reading \<times> world" where
  "generate_data d w =
     (let timestamp = now w;
          (valor, unidade, w1) =
            (if dev_type d = ''temperature'' then
               (let (x, w') = uniform 15 30 w in (FloatV (round2 x), unit_celsius, w'))
             else if dev_type d = ''humidity'' then
               (let (x, w') = uniform 30 70 w in (FloatV (round2 x), ''%'', w'))
             else if dev_type d = ''luminosity'' then
               (let (n, w') = randint 0 1000 w in (IntV n, ''lux'', w'))
             else
               (let (n, w') = randint 0 100 w in (IntV n, ''units'', w')))
      in (\<lparr>r_device = dev_id d, r_type = dev_type d, r_hardware = dev_hardware d,
           r_value = valor, r_unit = unidade, r_timestamp = timestamp\<rparr>, w1))"

text \<open>The documented range of each device category (spec, section 4.1): temperature in
  \<open>[15, 30]\<close>, humidity in \<open>[30, 70]\<close>, luminosity an integer of \<open>[0, 1000]\<close>, any other
  category an integer of \<open>[0, 100]\<close>.\<close>

fun in_documented_range :: "string \<Rightarrow> reading_value \<Rightarrow> bool" where
  "in_documented_range cat (FloatV x) =
     (if cat = ''temperature'' then 15 \<le> x \<and> x \<le> 30
      else if cat = ''humidity'' then 30 \<le> x \<and> x \<le> 70
      else False)"
| "in_documented_range cat (IntV n) =
     (if cat = ''temperature'' \<or> cat = ''humidity'' then False
      else if cat = ''luminosity'' then 0 \<le> n \<and> n \<le> 1000
      else 0 \<le> n \<and> n \<le> 100)"

text \<open>A call of \<^verbatim>\<open>client.publish(topic, payload)\<close>: the outcome is the world's, the call is
  recorded.\<close>

definition client_publish :: "nat \<Rightarrow> string \<Rightarrow> payload \<Rightarrow> world \<Rightarrow> pub_result \<times> world" where
  "client_publish c topic p w =
     (publish_res w (n_publish w),
      emit (Publish c topic p (publish_res w (n_publish w))) (w\<lparr>n_publish := Suc (n_publish w)\<rparr>))"

text \<open>\<^verbatim>\<open>IoTDevice.publish_data\<close>. The result is the exception that escapes, if any.\<close>

definition publish_data :: "IoTDevice \<Rightarrow> world \<Rightarrow> exn option \<times> world" where
  "publish_data d w =
     (let (data, w1) = generate_data d w;
          (res, w2) = client_publish (dev_client d) (topic_pub d) (Json data) w1
      in case res of
           PubRaise \<Rightarrow> (Some PublishError, w2)
         | PubOk \<Rightarrow> (None, logger INFO (DevicePublished (dev_id d) (topic_pub d) data) w2)
         | PubErr rc \<Rightarrow> (None, logger ERROR (DevicePublishFailed (dev_id d) rc) w2))"

text \<open>\<^verbatim>\<open>IoTDevice.stop\<close>.\<close>

definition IoTDevice_stop :: "IoTDevice \<Rightarrow> world \<Rightarrow> IoTDevice \<times> world" where
  "IoTDevice_stop d w =
     (d\<lparr>dev_running := False\<rparr>, emit (Disconnect (dev_client d)) (emit (LoopStop (dev_client d)) w))"

text \<open>The loop of \<^verbatim>\<open>IoTDevice.start\<close>: \<^verbatim>\<open>while self.running: publish, sleep\<close>. It has no
  bound of its own, so it runs on fuel; \<open>None\<close> is a loop that is still running when the
  fuel is gone.\<close>

fun device_loop :: "nat \<Rightarrow> rat \<Rightarrow> IoTDevice \<Rightarrow> world \<Rightarrow> (exn option \<times> IoTDevice \<times> world) option" where
  "device_loop 0 t0 d w = None"
| "device_loop (Suc k) t0 d w =
     (let (d1, w1) = (if stop_due t0 w then IoTDevice_stop d w else (d, w))
      in if \<not> dev_running d1 then Some (None, d1, w1)
         else (case publish_data d1 w1 of
                 (Some e, w2) \<Rightarrow> Some (Some e, d1, w2)
               | (None, w2) \<Rightarrow>
                   (let (n, w3) = randint 3 8 w2
                    in device_loop k t0 d1 (sleep (of_int n) w3))))"

text \<open>\<^verbatim>\<open>IoTDevice.start\<close>: connect, loop, and \<^verbatim>\<open>stop()\<close> in the \<^verbatim>\<open>finally\<close> block.\<close>

definition IoTDevice_start :: "nat \<Rightarrow> IoTDevice \<Rightarrow> world \<Rightarrow> (IoTDevice \<times> world) option" where
  "IoTDevice_start fuel d w =
     (let t0 = now w; c = dev_client d
      in if \<not> connect_ok w c then
           Some (IoTDevice_stop d (logger ERROR (DeviceError (dev_id d) ConnectionError) (emit (Connect c False) w)))
         else (case device_loop fuel t0 d (emit (LoopStart c) (emit (Connect c True) w)) of
                 None \<Rightarrow> None
               | Some (None, d1, w1) \<Rightarrow> Some (IoTDevice_stop d1 w1)
               | Some (Some e, d1, w1) \<Rightarrow>
                   Some (IoTDevice_stop d1 (logger ERROR (DeviceError (dev_id d) e) w1))))"

section \<open>The credential-guessing actor\<close>

record BruteForceAttack =
  bf_target_username :: string
  bf_rate :: int
  bf_running :: bool
  password_attempts :: nat

definition BruteForceAttack_init :: "string \<Rightarrow> int \<Rightarrow> BruteForceAttack" where
  "BruteForceAttack_init target_username rate =
     \<lparr>bf_target_username = target_username, bf_rate = rate, bf_running = False, password_attempts = 0\<rparr>"

definition ascii_letters :: string where
  "ascii_letters = ''abcdefghijklmnopqrstuvwxyzABCDEFGHIJKLMNOPQRSTUVWXYZ''"

definition digits :: string where
  "digits = ''0123456789''"

text \<open>\<^verbatim>\<open>''.join(random.choice(chars) for _ in range(n))\<close>.\<close>

fun random_string :: "string \<Rightarrow> nat \<Rightarrow> world \<Rightarrow> string \<times> world" where
  "random_string chars 0 w = ([], w)"
| "random_string chars (Suc n) w =
     (let (c, w1) = choice chars w;
          (cs, w2) = random_string chars n w1
      in (c # cs, w2))"

definition generate_password :: "nat \<Rightarrow> world \<Rightarrow> string \<times> world" where
  "generate_password len w = random_string (ascii_letters @ digits) len w"

text \<open>\<^verbatim>\<open>BruteForceAttack._attempt_login\<close>: a new client per attempt; a failed connect is
  swallowed by the bare \<^verbatim>\<open>except\<close>.\<close>

definition attempt_login :: "BruteForceAttack \<Rightarrow> string \<Rightarrow> world \<Rightarrow> bool \<times> world" where
  "attempt_login a password w =
     (let (suffix, w1) = randint 1000 9999 w;
          (c, w2) = new_client w1
      in if connect_ok w2 c then
           (True, logger WARNING (BruteSuccess (bf_target_username a) password)
                    (emit (Disconnect c) (emit (Connect c True) w2)))
         else (False, emit (Connect c False) w2))"

text \<open>\<^verbatim>\<open>BruteForceAttack.stop\<close>.\<close>

definition BruteForceAttack_stop :: "BruteForceAttack \<Rightarrow> BruteForceAttack" where
  "BruteForceAttack_stop a = a\<lparr>bf_running := False\<rparr>"

text \<open>One pass through the body of the attempt loop. \<^verbatim>\<open>1 / self.rate\<close> raises
  \<^verbatim>\<open>ZeroDivisionError\<close> for rate 0, and \<^verbatim>\<open>time.sleep\<close> raises \<^verbatim>\<open>ValueError\<close> for a
  negative argument; both leave the loop for the \<^verbatim>\<open>except\<close> block.\<close>

definition bf_attempt :: "BruteForceAttack \<Rightarrow> world \<Rightarrow> exn option \<times> BruteForceAttack \<times> world" where
  "bf_attempt a w =
     (let (password, w1) = generate_password 8 w;
          (ok, w2) = attempt_login a password w1;
          a1 = a\<lparr>password_attempts := Suc (password_attempts a)\<rparr>
      in if bf_rate a1 = 0 then (Some ZeroDivisionError, a1, w2)
         else if bf_rate a1 < 0 then (Some ValueError, a1, w2)
         else
           (let w3 = sleep (1 / of_int (bf_rate a1)) w2;
                w4 = (if password_attempts a1 mod 10 = 0
                      then logger INFO (BruteProgress (password_attempts a1)) w3 else w3)
            in (None, a1, w4)))"

text \<open>The attempt loop: \<^verbatim>\<open>while self.running and time.time() - start_time < duration\<close>.\<close>

function bf_loop :: "rat \<Rightarrow> rat \<Rightarrow> BruteForceAttack \<Rightarrow> world \<Rightarrow> exn option \<times> BruteForceAttack \<times> world" where
  "bf_loop t0 duration a w =
     (let a1 = (if stop_due t0 w then BruteForceAttack_stop a else a)
      in if \<not> (bf_running a1 \<and> now w - t0 < duration) then (None, a1, w)
         else (case bf_attempt a1 w of
                 (Some e, a2, w2) \<Rightarrow> (Some e, a2, w2)
               | (None, a2, w2) \<Rightarrow> bf_loop t0 duration a2 w2))"
  by pat_completeness auto

text \<open>\<^verbatim>\<open>BruteForceAttack.start\<close>, with its \<^verbatim>\<open>except\<close> and \<^verbatim>\<open>finally\<close> blocks.\<close>

definition BruteForceAttack_start :: "rat \<Rightarrow> BruteForceAttack \<Rightarrow> world \<Rightarrow> BruteForceAttack \<times> world" where
  "BruteForceAttack_start duration a w =
     (let a0 = a\<lparr>bf_running := True, password_attempts := 0\<rparr>;
          start_time = now w;
          w0 = logger INFO BruteStarting w;
          (e, a1, w1) = bf_loop start_time duration a0 w0;
          w2 = (case e of None \<Rightarrow> w1 | Some x \<Rightarrow> logger ERROR (BruteError x) w1)
      in (a1\<lparr>bf_running := False\<rparr>, logger INFO (BruteFinished (password_attempts a1)) w2))"

section \<open>The volumetric-flood actor\<close>

record DDoSAttack =
  attack_type :: string
  dd_rate :: int
  dd_running :: bool
  clients :: "nat list"
  operations_count :: nat

definition DDoSAttack_init :: "string \<Rightarrow> int \<Rightarrow> DDoSAttack" where
  "DDoSAttack_init atype rate =
     \<lparr>attack_type = atype, dd_rate = rate, dd_running = False, clients = [], operations_count = 0\<rparr>"

text \<open>\<^verbatim>\<open>DDoSAttack.stop\<close>: clear the flag, disconnect every retained client, forget them.\<close>

definition DDoSAttack_stop :: "DDoSAttack \<Rightarrow> world \<Rightarrow> DDoSAttack \<times> world" where
  "DDoSAttack_stop a w =
     (a\<lparr>dd_running := False, clients := []\<rparr>, fold (\<lambda>c. emit (Disconnect c)) (clients a) w)"

text \<open>The \<^verbatim>\<open>for\<close> loop of \<^verbatim>\<open>_flood_connections\<close>, run \<open>n\<close> times: a new client per pass; a
  connect that raises is swallowed and the next pass follows.\<close>

fun connect_batch :: "nat \<Rightarrow> DDoSAttack \<Rightarrow> world \<Rightarrow> DDoSAttack \<times> world" where
  "connect_batch 0 a w = (a, w)"
| "connect_batch (Suc n) a w =
     (let (suffix, w1) = randint 10000 999999 w;
          (c, w2) = new_client w1
      in if connect_ok w2 c then
           connect_batch n (a\<lparr>clients := clients a @ [c], operations_count := Suc (operations_count a)\<rparr>)
             (emit (Connect c True) w2)
         else connect_batch n a (emit (Connect c False) w2))"

text \<open>One cycle of \<^verbatim>\<open>_flood_connections\<close>: \<^verbatim>\<open>range(min(10, self.rate // 10))\<close> passes (none
  when the bound is not positive), the periodic log line, one second of sleep.\<close>

definition flood_connections_cycle :: "DDoSAttack \<Rightarrow> world \<Rightarrow> DDoSAttack \<times> world" where
  "flood_connections_cycle a w =
     (let (a1, w1) = connect_batch (nat (min 10 (dd_rate a div 10))) a w;
          w2 = (if operations_count a1 mod 50 = 0
                then logger INFO (FloodConnections (operations_count a1)) w1 else w1)
      in (a1, sleep 1 w2))"

function flood_connections_loop :: "rat \<Rightarrow> rat \<Rightarrow> DDoSAttack \<Rightarrow> world \<Rightarrow> DDoSAttack \<times> world" where
  "flood_connections_loop t0 duration a w =
     (let (a1, w1) = (if stop_due t0 w then DDoSAttack_stop a w else (a, w))
      in if \<not> (dd_running a1 \<and> now w1 - t0 < duration) then (a1, w1)
         else (let (a2, w2) = flood_connections_cycle a1 w1
               in flood_connections_loop t0 duration a2 w2))"
  by pat_completeness auto

definition flood_connections :: "rat \<Rightarrow> DDoSAttack \<Rightarrow> world \<Rightarrow> DDoSAttack \<times> world" where
  "flood_connections duration a w = flood_connections_loop (now w) duration a w"

text \<open>Decimal digits of a number, for the names built with f-strings.\<close>

fun str_nat :: "nat \<Rightarrow> string" where
  "str_nat n = (if n < 10 then [digits ! n] else str_nat (n div 10) @ [digits ! (n mod 10)])"

definition flood_topics :: "string list" where
  "flood_topics = map (\<lambda>i. ''ddos/flood/topic/'' @ str_nat i) [0..<10]"

text \<open>The setup of \<^verbatim>\<open>_flood_publish\<close>: for each \<open>i\<close> of \<^verbatim>\<open>range(5)\<close> a new client; one that
  connects joins the pool, one that does not is skipped.\<close>

fun connect_pool :: "nat list \<Rightarrow> nat list \<Rightarrow> world \<Rightarrow> nat list \<times> world" where
  "connect_pool [] base_clients w = (base_clients, w)"
| "connect_pool (i # rest) base_clients w =
     (let (suffix, w1) = randint 1000 9999 w;
          (c, w2) = new_client w1
      in if connect_ok w2 c then
           connect_pool rest (base_clients @ [c]) (emit (LoopStart c) (emit (Connect c True) w2))
         else connect_pool rest base_clients (emit (Connect c False) w2))"

text \<open>The two nested \<^verbatim>\<open>for\<close> loops of a publish cycle. A publish that raises ends both.\<close>

fun publish_topics :: "nat \<Rightarrow> string list \<Rightarrow> DDoSAttack \<Rightarrow> world \<Rightarrow> exn option \<times> DDoSAttack \<times> world" where
  "publish_topics c [] a w = (None, a, w)"
| "publish_topics c (topic # rest) a w =
     (let (p, w1) = random_string ascii_letters 50 w;
          (res, w2) = client_publish c topic (Text p) w1
      in if res = PubRaise then (Some PublishError, a, w2)
         else publish_topics c rest (a\<lparr>operations_count := Suc (operations_count a)\<rparr>) w2)"

fun publish_clients :: "nat list \<Rightarrow> string list \<Rightarrow> DDoSAttack \<Rightarrow> world \<Rightarrow> exn option \<times> DDoSAttack \<times> world" where
  "publish_clients [] topics a w = (None, a, w)"
| "publish_clients (c # rest) topics a w =
     (case publish_topics c topics a w of
        (Some e, a1, w1) \<Rightarrow> (Some e, a1, w1)
      | (None, a1, w1) \<Rightarrow> publish_clients rest topics a1 w1)"

text \<open>One cycle of the publish loop, with its \<^verbatim>\<open>try\<close>/\<^verbatim>\<open>except\<close>: an exception is logged
  and the cycle ends there, without the log line and without the sleep.\<close>

definition flood_publish_cycle :: "nat list \<Rightarrow> string list \<Rightarrow> DDoSAttack \<Rightarrow> world \<Rightarrow> DDoSAttack \<times> world" where
  "flood_publish_cycle base_clients topics a w =
     (case publish_clients base_clients topics a w of
        (Some e, a1, w1) \<Rightarrow> (a1, logger ERROR (FloodPublishError e) w1)
      | (None, a1, w1) \<Rightarrow>
          (let w2 = (if operations_count a1 mod 100 = 0
                     then logger INFO (FloodPublished (operations_count a1)) w1 else w1)
           in (a1, sleep 1 w2)))"

text \<open>The publish loop. A cycle that raises does not sleep, so in this model of time the
  loop need not end; it runs on fuel.\<close>

fun flood_publish_loop ::
  "nat \<Rightarrow> rat \<Rightarrow> rat \<Rightarrow> nat list \<Rightarrow> string list \<Rightarrow> DDoSAttack \<Rightarrow> world \<Rightarrow> (DDoSAttack \<times> world) option" where
  "flood_publish_loop 0 t0 duration base_clients topics a w = None"
| "flood_publish_loop (Suc k) t0 duration base_clients topics a w =
     (let (a1, w1) = (if stop_due t0 w then DDoSAttack_stop a w else (a, w))
      in if \<not> (dd_running a1 \<and> now w1 - t0 < duration) then Some (a1, w1)
         else (let (a2, w2) = flood_publish_cycle base_clients topics a1 w1
               in flood_publish_loop k t0 duration base_clients topics a2 w2))"

text \<open>The cleanup after the publish loop.\<close>

definition close_pool :: "nat list \<Rightarrow> world \<Rightarrow> world" where
  "close_pool base_clients w = fold (\<lambda>c w'. emit (Disconnect c) (emit (LoopStop c) w')) base_clients w"

text \<open>\<^verbatim>\<open>DDoSAttack._flood_publish\<close>.\<close>

definition flood_publish :: "nat \<Rightarrow> rat \<Rightarrow> DDoSAttack \<Rightarrow> world \<Rightarrow> (DDoSAttack \<times> world) option" where
  "flood_publish fuel duration a w =
     (let start_time = now w;
          (base_clients, w1) = connect_pool [0..<5] [] w
      in if base_clients = [] then Some (a, logger ERROR FloodNoConnections w1)
         else (case flood_publish_loop fuel start_time duration base_clients flood_topics a w1 of
                 None \<Rightarrow> None
               | Some (a1, w2) \<Rightarrow> Some (a1, close_pool base_clients w2)))"

text \<open>\<^verbatim>\<open>DDoSAttack.start\<close>.\<close>

definition DDoSAttack_start :: "nat \<Rightarrow> rat \<Rightarrow> DDoSAttack \<Rightarrow> world \<Rightarrow> (DDoSAttack \<times> world) option" where
  "DDoSAttack_start fuel duration a w =
     (let a0 = a\<lparr>dd_running := True, operations_count := 0\<rparr>;
          w0 = logger INFO (FloodStarting (attack_type a0)) w;
          r = (if attack_type a0 = ''connection'' then Some (flood_connections duration a0 w0)
               else if attack_type a0 = ''publish'' then flood_publish fuel duration a0 w0
               else Some (a0, logger ERROR (FloodUnknownType (attack_type a0)) w0))
      in case r of
           None \<Rightarrow> None
         | Some (a1, w1) \<Rightarrow> Some (a1, logger INFO (FloodFinished (operations_count a1)) w1))"

section \<open>The orchestrator\<close>

text \<open>The configuration dictionary built by \<^verbatim>\<open>main\<close>. The two attack durations are read
  with \<^verbatim>\<open>config.get(key, 60)\<close> and \<^verbatim>\<open>main\<close> never sets them, hence the options.\<close>

record config =
  cfg_duration :: int
  cfg_devices :: int
  cfg_bruteforce :: bool
  cfg_bruteforce_rate :: int
  cfg_bruteforce_username :: string
  cfg_bruteforce_duration :: "rat option"
  cfg_ddos :: bool
  cfg_ddos_type :: string
  cfg_ddos_rate :: int
  cfg_ddos_duration :: "rat option"

datatype attack = BruteForce BruteForceAttack | Flood DDoSAttack

record SimulationManager =
  sm_config :: config
  devices :: "IoTDevice list"
  device_threads :: "thread_target list"
  attack_threads :: "(thread_target \<times> attack) list"
  sm_running :: bool


definition device_types :: "string list" where
  "device_types = [''temperature'', ''humidity'', ''luminosity'']"

definition hardware_types :: "string list" where
  "hardware_types = [''Raspberry Pi'', ''ESP32'', ''Arduino'', ''ESP8266'']"

fun create_devices_loop :: "nat list \<Rightarrow> SimulationManager \<Rightarrow> world \<Rightarrow> SimulationManager \<times> world" where
  "create_devices_loop [] m w = (m, w)"
| "create_devices_loop (i # rest) m w =
     (let (device_type, w1) = choice device_types w;
          (hardware_type, w2) = choice hardware_types w1;
          device_id = device_type @ ''_'' @ str_nat (i + 1);
          (device, w3) = IoTDevice_init device_id device_type hardware_type w2
      in create_devices_loop rest (m\<lparr>devices := devices m @ [device]\<rparr>) w3)"

text \<open>\<^verbatim>\<open>SimulationManager.create_devices\<close>.\<close>

definition create_devices :: "SimulationManager \<Rightarrow> world \<Rightarrow> SimulationManager \<times> world" where
  "create_devices m w =
     (let devices_count = cfg_devices (sm_config m);
          w0 = logger INFO (CreatingDevices devices_count) w;
          (m1, w1) = create_devices_loop [0..<nat devices_count] m w0
      in (m1, logger INFO (DevicesCreated (length (devices m1))) w1))"

text \<open>\<^verbatim>\<open>SimulationManager.start_devices\<close>: one thread per device, in the order of the list.
  A started thread is recorded; what it does is the device's \<open>IoTDevice_start\<close>.\<close>

fun start_devices_loop :: "nat list \<Rightarrow> SimulationManager \<Rightarrow> world \<Rightarrow> SimulationManager \<times> world" where
  "start_devices_loop [] m w = (m, w)"
| "start_devices_loop (i # rest) m w =
     start_devices_loop rest (m\<lparr>device_threads := device_threads m @ [DeviceThread i]\<rparr>)
       (emit (Spawn (now w) (DeviceThread i)) w)"

definition start_devices :: "SimulationManager \<Rightarrow> world \<Rightarrow> SimulationManager \<times> world" where
  "start_devices m w = start_devices_loop [0..<length (devices m)] m (logger INFO StartingDevices w)"

text \<open>\<^verbatim>\<open>SimulationManager.start_bruteforce_attack\<close> and \<^verbatim>\<open>start_ddos_attack\<close>: what a
  timer runs when it fires.\<close>

definition start_bruteforce_attack :: "SimulationManager \<Rightarrow> world \<Rightarrow> SimulationManager \<times> world" where
  "start_bruteforce_attack m w =
     (if \<not> cfg_bruteforce (sm_config m) then (m, w)
      else
        (let w0 = logger INFO ConfiguringBruteForce w;
             attack = BruteForceAttack_init (cfg_bruteforce_username (sm_config m))
                        (cfg_bruteforce_rate (sm_config m))
         in (m\<lparr>attack_threads := attack_threads m @ [(BruteForceThread, BruteForce attack)]\<rparr>,
             emit (Spawn (now w0) BruteForceThread) w0)))"

definition start_ddos_attack :: "SimulationManager \<Rightarrow> world \<Rightarrow> SimulationManager \<times> world" where
  "start_ddos_attack m w =
     (if \<not> cfg_ddos (sm_config m) then (m, w)
      else
        (let atype = cfg_ddos_type (sm_config m);
             w0 = logger INFO (ConfiguringFlood atype) w;
             attack = DDoSAttack_init atype (cfg_ddos_rate (sm_config m))
         in (m\<lparr>attack_threads := attack_threads m @ [(FloodThread, Flood attack)]\<rparr>,
             emit (Spawn (now w0) FloodThread) w0)))"

text \<open>\<^verbatim>\<open>threading.Timer(delay, f).start()\<close>: \<open>f\<close> runs once \<open>delay\<close> seconds have passed
  (at once when the delay is not positive). The world keeps the time at which it fires.\<close>

definition timer_start :: "rat \<Rightarrow> timer_action \<Rightarrow> world \<Rightarrow> world" where
  "timer_start delay f w = w\<lparr>timers := timers w @ [(now w + max 0 delay, f)]\<rparr>"


text \<open>\<^verbatim>\<open>attack.stop()\<close> on an entry of \<^verbatim>\<open>attack_threads\<close>.\<close>

fun attack_stop :: "attack \<Rightarrow> world \<Rightarrow> attack \<times> world" where
  "attack_stop (BruteForce a) w = (BruteForce (BruteForceAttack_stop a), w)"
| "attack_stop (Flood a) w = (let (a1, w1) = DDoSAttack_stop a w in (Flood a1, w1))"

fun stop_devices :: "IoTDevice list \<Rightarrow> world \<Rightarrow> IoTDevice list \<times> world" where
  "stop_devices [] w = ([], w)"
| "stop_devices (d # ds) w =
     (let (d1, w1) = IoTDevice_stop d w;
          (ds1, w2) = stop_devices ds w1
      in (d1 # ds1, w2))"

fun stop_attacks :: "(thread_target \<times> attack) list \<Rightarrow> world \<Rightarrow> (thread_target \<times> attack) list \<times> world" where
  "stop_attacks [] w = ([], w)"
| "stop_attacks ((t, a) # rest) w =
     (let (a1, w1) = attack_stop a w;
          (rest1, w2) = stop_attacks rest w1
      in ((t, a1) # rest1, w2))"

text \<open>\<^verbatim>\<open>SimulationManager.stop\<close>.\<close>

definition SimulationManager_stop :: "SimulationManager \<Rightarrow> world \<Rightarrow> SimulationManager \<times> world" where
  "SimulationManager_stop m w =
     (if \<not> sm_running m then (m, w)
      else
        (let w0 = logger INFO StoppingSimulation w;
             (ds, w1) = stop_devices (devices m) w0;
             (ats, w2) = stop_attacks (attack_threads m) w1
         in (m\<lparr>devices := ds, attack_threads := ats, sm_running := False\<rparr>,
             logger INFO SimulationStopped w2)))"


definition ddos_thread :: "nat \<Rightarrow> config \<Rightarrow> world \<Rightarrow> (DDoSAttack \<times> world) option" where
  "ddos_thread fuel cfg w =
     DDoSAttack_start fuel (case cfg_ddos_duration cfg of None \<Rightarrow> 60 | Some d \<Rightarrow> d)
       (DDoSAttack_init (cfg_ddos_type cfg) (cfg_ddos_rate cfg)) w"

text \<open>The function a timer calls when it fires.\<close>

fun timer_callback :: "timer_action \<Rightarrow> SimulationManager \<Rightarrow> world \<Rightarrow> SimulationManager \<times> world" where
  "timer_callback StartBruteforceAttack m w = start_bruteforce_attack m w"
| "timer_callback StartDdosAttack m w = start_ddos_attack m w"






section \<open>Reading a trace\<close>

text \<open>The \<^verbatim>\<open>connect\<close> calls and the \<^verbatim>\<open>publish\<close> calls of a list of events, in order.\<close>

fun connects :: "event list \<Rightarrow> (nat \<times> bool) list" where
  "connects [] = []"
| "connects (Connect c ok # es) = (c, ok) # connects es"
| "connects (e # es) = connects es"

fun publishes :: "event list \<Rightarrow> (nat \<times> string \<times> payload) list" where
  "publishes [] = []"
| "publishes (Publish c t p r # es) = (c, t, p) # publishes es"
| "publishes (e # es) = publishes es"

text \<open>The times at which a thread of the given kind was started, and the times at which
  the pending timers with a given function are due.\<close>

fun spawned :: "thread_target \<Rightarrow> event list \<Rightarrow> rat list" where
  "spawned x [] = []"
| "spawned x (Spawn t y # es) = (if y = x then t # spawned x es else spawned x es)"
| "spawned x (e # es) = spawned x es"


text \<open>The thread a timer's function starts, and the configuration flag the function
  tests before it does.\<close>

fun thread_of :: "timer_action \<Rightarrow> thread_target" where
  "thread_of StartBruteforceAttack = BruteForceThread"
| "thread_of StartDdosAttack = FloodThread"


text \<open>A world at time 0 in which nothing has happened yet, for given behaviours of
  \<^verbatim>\<open>connect\<close> and \<^verbatim>\<open>publish\<close>.\<close>

definition initial_world :: "(nat \<Rightarrow> bool) \<Rightarrow> (nat \<Rightarrow> pub_result) \<Rightarrow> world" where
  "initial_world conn pub =
     \<lparr>now = 0, stop_at = None, connect_ok = conn, publish_res = pub, rnd = (\<lambda>k. 0), rpos = 0,
      n_client = 0, n_publish = 0, timers = [], trace = []\<rparr>"

text \<open>The clients whose \<^verbatim>\<open>connect\<close> returned, in order, and the events of the cleanup of a
  pool of clients.\<close>

definition opened :: "event list \<Rightarrow> nat list" where
  "opened es = map fst (filter snd (connects es))"

definition close_events :: "nat list \<Rightarrow> event list" where
  "close_events cs = concat (map (\<lambda>c. [LoopStop c, Disconnect c]) cs)"

text \<open>A payload that is a text of 50 characters.\<close>

fun payload50 :: "payload \<Rightarrow> bool" where
  "payload50 (Text s) = (length s = 50)"
| "payload50 (Json r) = False"

text \<open>\<open>w'\<close> is \<open>w\<close> after more events, none of them a \<^verbatim>\<open>connect\<close>.\<close>

definition no_connect :: "world \<Rightarrow> world \<Rightarrow> bool" where
  "no_connect w w' = (\<exists>es. trace w' = trace w @ es \<and> connects es = [])"

text \<open>The attempt counts of the final report lines of the credential-guessing actor among
  a list of events.\<close>

fun final_reports :: "event list \<Rightarrow> nat list" where
  "final_reports [] = []"
| "final_reports (LogLine l (BruteFinished n) # es) = n # final_reports es"
| "final_reports (e # es) = final_reports es"

text \<open>\<open>w'\<close> is \<open>w\<close> after more events, none of them a final report.\<close>

definition no_report :: "world \<Rightarrow> world \<Rightarrow> bool" where
  "no_report w w' = (\<exists>es. trace w' = trace w @ es \<and> final_reports es = [])"

text \<open>The moment the attempt loop is due to end (spec, section 4.2): when the duration
  has passed since \<open>t0\<close> or when the run-flag is cleared from outside, whichever comes
  first. A \<^verbatim>\<open>stop()\<close> from before \<open>t0\<close> is overwritten by \<^verbatim>\<open>start\<close> and does not count.\<close>

definition loop_deadline :: "rat \<Rightarrow> rat \<Rightarrow> rat option \<Rightarrow> rat" where
  "loop_deadline t0 duration stop =
     (case stop of
        None \<Rightarrow> t0 + duration
      | Some ts \<Rightarrow> if t0 \<le> ts then min (t0 + duration) ts else t0 + duration)"

section \<open>Frame facts and termination\<close>

text \<open>What each basic operation leaves unchanged, and the termination of the two
  duration-bounded loops.\<close>

lemma emit_fields [simp]:
  "now (emit e w) = now w" "stop_at (emit e w) = stop_at w" "connect_ok (emit e w) = connect_ok w"
  "publish_res (emit e w) = publish_res w" "rnd (emit e w) = rnd w" "rpos (emit e w) = rpos w"
  "n_client (emit e w) = n_client w" "n_publish (emit e w) = n_publish w"
  "timers (emit e w) = timers w" "trace (emit e w) = trace w @ [e]"
  by (simp_all add: emit_def)

lemma logger_fields [simp]:
  "now (logger l m w) = now w" "stop_at (logger l m w) = stop_at w"
  "connect_ok (logger l m w) = connect_ok w" "publish_res (logger l m w) = publish_res w"
  "rnd (logger l m w) = rnd w" "rpos (logger l m w) = rpos w"
  "n_client (logger l m w) = n_client w" "n_publish (logger l m w) = n_publish w"
  "timers (logger l m w) = timers w" "trace (logger l m w) = trace w @ [LogLine l m]"
  by (simp_all add: logger_def)

lemma sleep_fields [simp]:
  "now (sleep x w) = now w + x" "stop_at (sleep x w) = stop_at w"
  "connect_ok (sleep x w) = connect_ok w" "publish_res (sleep x w) = publish_res w"
  "rnd (sleep x w) = rnd w" "rpos (sleep x w) = rpos w"
  "n_client (sleep x w) = n_client w" "n_publish (sleep x w) = n_publish w"
  "timers (sleep x w) = timers w" "trace (sleep x w) = trace w @ [Sleep x]"
  by (simp_all add: sleep_def)

lemma draw_fields [simp]:
  "now (snd (draw w)) = now w" "stop_at (snd (draw w)) = stop_at w"
  "connect_ok (snd (draw w)) = connect_ok w" "publish_res (snd (draw w)) = publish_res w"
  "rnd (snd (draw w)) = rnd w" "rpos (snd (draw w)) = Suc (rpos w)"
  "n_client (snd (draw w)) = n_client w" "n_publish (snd (draw w)) = n_publish w"
  "timers (snd (draw w)) = timers w" "trace (snd (draw w)) = trace w"
  by (simp_all add: draw_def)

lemma randint_fields [simp]:
  "now (snd (randint a b w)) = now w" "stop_at (snd (randint a b w)) = stop_at w"
  "connect_ok (snd (randint a b w)) = connect_ok w" "publish_res (snd (randint a b w)) = publish_res w"
  "rnd (snd (randint a b w)) = rnd w" "rpos (snd (randint a b w)) = Suc (rpos w)"
  "n_client (snd (randint a b w)) = n_client w" "n_publish (snd (randint a b w)) = n_publish w"
  "timers (snd (randint a b w)) = timers w" "trace (snd (randint a b w)) = trace w"
  by (simp_all add: randint_def)

lemma choice_fields [simp]:
  "now (snd (choice xs w)) = now w" "stop_at (snd (choice xs w)) = stop_at w"
  "connect_ok (snd (choice xs w)) = connect_ok w" "publish_res (snd (choice xs w)) = publish_res w"
  "rnd (snd (choice xs w)) = rnd w" "rpos (snd (choice xs w)) = Suc (rpos w)"
  "n_client (snd (choice xs w)) = n_client w" "n_publish (snd (choice xs w)) = n_publish w"
  "timers (snd (choice xs w)) = timers w" "trace (snd (choice xs w)) = trace w"
  by (simp_all add: choice_def)

lemma new_client_fields [simp]:
  "fst (new_client w) = n_client w"
  "now (snd (new_client w)) = now w" "stop_at (snd (new_client w)) = stop_at w"
  "connect_ok (snd (new_client w)) = connect_ok w" "publish_res (snd (new_client w)) = publish_res w"
  "rnd (snd (new_client w)) = rnd w" "rpos (snd (new_client w)) = rpos w"
  "n_client (snd (new_client w)) = Suc (n_client w)" "n_publish (snd (new_client w)) = n_publish w"
  "timers (snd (new_client w)) = timers w" "trace (snd (new_client w)) = trace w"
  by (simp_all add: new_client_def)

lemma random_string_fields [simp]:
  "now (snd (random_string cs n w)) = now w" "stop_at (snd (random_string cs n w)) = stop_at w"
  "connect_ok (snd (random_string cs n w)) = connect_ok w"
  "publish_res (snd (random_string cs n w)) = publish_res w"
  "rnd (snd (random_string cs n w)) = rnd w" "rpos (snd (random_string cs n w)) = rpos w + n"
  "n_client (snd (random_string cs n w)) = n_client w"
  "n_publish (snd (random_string cs n w)) = n_publish w"
  "timers (snd (random_string cs n w)) = timers w" "trace (snd (random_string cs n w)) = trace w"
  by (induction n arbitrary: w; simp add: split_beta)+

lemma length_random_string [simp]: "length (fst (random_string cs n w)) = n"
  by (induction n arbitrary: w) (simp_all add: split_beta)

lemma attempt_login_fields [simp]:
  "now (snd (attempt_login a p w)) = now w" "stop_at (snd (attempt_login a p w)) = stop_at w"
  by (simp_all add: attempt_login_def split_beta)

lemma bf_attempt_None:
  assumes "bf_attempt a w = (None, a2, w2)"
  shows "0 < bf_rate a" "a2 = a\<lparr>password_attempts := Suc (password_attempts a)\<rparr>"
    "now w2 = now w + 1 / of_int (bf_rate a)" "stop_at w2 = stop_at w"
  using assms
  by (auto simp: bf_attempt_def generate_password_def split_beta Let_def split: if_splits)

lemma ceiling_step:
  fixes r x :: rat
  assumes "0 < r" "0 < x"
  shows "nat \<lceil>(x - 1 / r) * r\<rceil> < nat \<lceil>x * r\<rceil>"
proof -
  have e: "(x - 1 / r) * r = x * r - 1" using assms(1) by (simp add: field_simps)
  have "0 < x * r" using assms by simp
  then have "0 < \<lceil>x * r\<rceil>" by (simp add: ceiling_less_iff less_ceiling_iff)
  then show ?thesis unfolding e by simp
qed

lemma bf_loop_decreases:
  assumes "now w - t0 < duration" "bf_attempt a1 w = (None, a2, w2)" "bf_rate a1 = r"
  shows "nat \<lceil>(t0 + duration - now w2) * of_int (bf_rate a2)\<rceil> < nat \<lceil>(t0 + duration - now w) * of_int r\<rceil>"
proof -
  have n: "0 < bf_rate a1" "now w2 = now w + 1 / of_int (bf_rate a1)"
    "a2 = a1\<lparr>password_attempts := Suc (password_attempts a1)\<rparr>"
    using bf_attempt_None [OF assms(2)] by auto
  have g: "0 < t0 + duration - now w" using assms(1) by simp
  have e: "t0 + duration - now w2 = (t0 + duration - now w) - 1 / of_int r"
    using n assms(3) by simp
  have b: "bf_rate a2 = r" using n assms(3) by simp
  have r: "0 < (of_int r :: rat)" using n(1) assms(3) by simp
  have c: "nat \<lceil>((t0 + duration - now w) - 1 / of_int r) * of_int r\<rceil>
             < nat \<lceil>(t0 + duration - now w) * of_int r\<rceil>"
    using r g by (rule ceiling_step)
  show ?thesis unfolding e b by (rule c)
qed

termination bf_loop
  apply (relation "measure (\<lambda>(t0, d, a, w). nat \<lceil>(t0 + d - now w) * of_int (bf_rate a)\<rceil>)")
   apply simp
  apply (auto simp: BruteForceAttack_stop_def intro: bf_loop_decreases)
  done


lemma client_publish_fields [simp]:
  "fst (client_publish c t p w) = publish_res w (n_publish w)"
  "now (snd (client_publish c t p w)) = now w" "stop_at (snd (client_publish c t p w)) = stop_at w"
  "connect_ok (snd (client_publish c t p w)) = connect_ok w"
  "publish_res (snd (client_publish c t p w)) = publish_res w"
  "rnd (snd (client_publish c t p w)) = rnd w" "rpos (snd (client_publish c t p w)) = rpos w"
  "n_client (snd (client_publish c t p w)) = n_client w"
  "n_publish (snd (client_publish c t p w)) = Suc (n_publish w)"
  "timers (snd (client_publish c t p w)) = timers w"
  "trace (snd (client_publish c t p w)) = trace w @ [Publish c t p (publish_res w (n_publish w))]"
  by (simp_all add: client_publish_def)

lemma fold_disconnect_fields [simp]:
  "now (fold (\<lambda>c. emit (Disconnect c)) cs w) = now w"
  "stop_at (fold (\<lambda>c. emit (Disconnect c)) cs w) = stop_at w"
  "connect_ok (fold (\<lambda>c. emit (Disconnect c)) cs w) = connect_ok w"
  "publish_res (fold (\<lambda>c. emit (Disconnect c)) cs w) = publish_res w"
  "rnd (fold (\<lambda>c. emit (Disconnect c)) cs w) = rnd w"
  "rpos (fold (\<lambda>c. emit (Disconnect c)) cs w) = rpos w"
  "n_client (fold (\<lambda>c. emit (Disconnect c)) cs w) = n_client w"
  "n_publish (fold (\<lambda>c. emit (Disconnect c)) cs w) = n_publish w"
  "timers (fold (\<lambda>c. emit (Disconnect c)) cs w) = timers w"
  "trace (fold (\<lambda>c. emit (Disconnect c)) cs w) = trace w @ map Disconnect cs"
  by (induction cs arbitrary: w; simp)+

lemma DDoSAttack_stop_fields [simp]:
  "dd_running (fst (DDoSAttack_stop a w)) = False" "clients (fst (DDoSAttack_stop a w)) = []"
  "dd_rate (fst (DDoSAttack_stop a w)) = dd_rate a"
  "attack_type (fst (DDoSAttack_stop a w)) = attack_type a"
  "operations_count (fst (DDoSAttack_stop a w)) = operations_count a"
  "now (snd (DDoSAttack_stop a w)) = now w" "stop_at (snd (DDoSAttack_stop a w)) = stop_at w"
  "connect_ok (snd (DDoSAttack_stop a w)) = connect_ok w"
  "publish_res (snd (DDoSAttack_stop a w)) = publish_res w"
  "n_client (snd (DDoSAttack_stop a w)) = n_client w"
  "n_publish (snd (DDoSAttack_stop a w)) = n_publish w"
  "trace (snd (DDoSAttack_stop a w)) = trace w @ map Disconnect (clients a)"
  by (simp_all add: DDoSAttack_stop_def)

lemma connect_batch_fields [simp]:
  "now (snd (connect_batch n a w)) = now w" "stop_at (snd (connect_batch n a w)) = stop_at w"
  "connect_ok (snd (connect_batch n a w)) = connect_ok w"
  "n_client (snd (connect_batch n a w)) = n_client w + n"
  "dd_running (fst (connect_batch n a w)) = dd_running a"
  "dd_rate (fst (connect_batch n a w)) = dd_rate a"
  "attack_type (fst (connect_batch n a w)) = attack_type a"
  by (induction n arbitrary: a w; simp add: split_beta)+

lemma flood_connections_cycle_fields [simp]:
  "now (snd (flood_connections_cycle a w)) = now w + 1"
  "stop_at (snd (flood_connections_cycle a w)) = stop_at w"
  "connect_ok (snd (flood_connections_cycle a w)) = connect_ok w"
  "n_client (snd (flood_connections_cycle a w)) = n_client w + nat (min 10 (dd_rate a div 10))"
  "dd_running (fst (flood_connections_cycle a w)) = dd_running a"
  "dd_rate (fst (flood_connections_cycle a w)) = dd_rate a"
  "attack_type (fst (flood_connections_cycle a w)) = attack_type a"
  by (simp_all add: flood_connections_cycle_def split_beta Let_def)

lemma ceiling_pred:
  fixes x :: rat
  assumes "0 < x"
  shows "nat \<lceil>x - 1\<rceil> < nat \<lceil>x\<rceil>"
proof -
  have "0 < \<lceil>x\<rceil>" using assms by (simp add: less_ceiling_iff)
  then show ?thesis by simp
qed

lemma flood_connections_loop_decreases:
  assumes "now w1 - t0 < duration" "now w1 = now w"
  shows "nat \<lceil>t0 + duration - (now w1 + 1)\<rceil> < nat \<lceil>t0 + duration - now w\<rceil>"
proof -
  have e: "t0 + duration - (now w1 + 1) = (t0 + duration - now w) - 1" using assms(2) by simp
  have g: "0 < t0 + duration - now w" using assms by simp
  show ?thesis unfolding e using g by (rule ceiling_pred)
qed

lemma flood_connections_loop_step:
  assumes "(a1, w1) = (if stop_due t0 w then DDoSAttack_stop a w else (a, w))"
    and "now w1 - t0 < duration"
    and "flood_connections_cycle a1 w1 = (a2, w2)"
  shows "nat \<lceil>t0 + duration - now w2\<rceil> < nat \<lceil>t0 + duration - now w\<rceil>"
proof -
  have n1: "now w1 = now w"
  proof (cases "stop_due t0 w")
    case True
    then have "w1 = snd (DDoSAttack_stop a w)" using assms(1) by (metis snd_conv)
    then show ?thesis by simp
  next
    case False
    then show ?thesis using assms(1) by simp
  qed
  have "w2 = snd (flood_connections_cycle a1 w1)" using assms(3) by simp
  then have n2: "now w2 = now w1 + 1" by simp
  show ?thesis unfolding n2 using assms(2) n1 by (rule flood_connections_loop_decreases)
qed

termination flood_connections_loop
proof (relation "measure (\<lambda>(t0, d, a, w). nat \<lceil>t0 + d - now w\<rceil>)", goal_cases)
  case 1
  show ?case by simp
next
  case (2 t0 duration a w x a1 w1 y a2 w2)
  have "nat \<lceil>t0 + duration - now w2\<rceil> < nat \<lceil>t0 + duration - now w\<rceil>"
    using 2 by (intro flood_connections_loop_step [of a1 w1 t0 w a duration a2 w2]) auto
  then show ?case by simp
qed

lemma initial_world_fields [simp]:
  "now (initial_world conn pub) = 0" "stop_at (initial_world conn pub) = None"
  "connect_ok (initial_world conn pub) = conn" "publish_res (initial_world conn pub) = pub"
  "rnd (initial_world conn pub) = (\<lambda>k. 0)" "rpos (initial_world conn pub) = 0"
  "n_client (initial_world conn pub) = 0" "n_publish (initial_world conn pub) = 0"
  "timers (initial_world conn pub) = []" "trace (initial_world conn pub) = []"
  by (simp_all add: initial_world_def)

lemma connects_append [simp]: "connects (xs @ ys) = connects xs @ connects ys"
  by (induction xs rule: connects.induct) simp_all

lemma publishes_append [simp]: "publishes (xs @ ys) = publishes xs @ publishes ys"
  by (induction xs rule: publishes.induct) simp_all

lemma connects_map_Disconnect [simp]: "connects (map Disconnect cs) = []"
  by (induction cs) simp_all

lemma publishes_map_Disconnect [simp]: "publishes (map Disconnect cs) = []"
  by (induction cs) simp_all

lemma publishes_map_Connect [simp]: "publishes (map (\<lambda>i. Connect (f i) b) xs) = []"
  by (induction xs) simp_all

lemma connect_pool_fields [simp]:
  "now (snd (connect_pool xs base w)) = now w" "stop_at (snd (connect_pool xs base w)) = stop_at w"
  "connect_ok (snd (connect_pool xs base w)) = connect_ok w"
  "publish_res (snd (connect_pool xs base w)) = publish_res w"
  "n_client (snd (connect_pool xs base w)) = n_client w + length xs"
  "n_publish (snd (connect_pool xs base w)) = n_publish w"
  by (induction xs arbitrary: base w; simp add: split_beta)+

lemma connect_pool_unreachable:
  assumes "\<forall>i<length xs. \<not> connect_ok w (n_client w + i)"
  shows "fst (connect_pool xs base w) = base \<and>
         trace (snd (connect_pool xs base w)) =
           trace w @ map (\<lambda>i. Connect (n_client w + i) False) [0..<length xs]"
  using assms
proof (induction xs arbitrary: base w)
  case Nil
  then show ?case by simp
next
  case (Cons x xs)
  let ?w2 = "snd (new_client (snd (randint 1000 9999 w)))"
  let ?w' = "emit (Connect (n_client w) False) ?w2"
  have first: "\<not> connect_ok w (n_client w)" using Cons.prems by force
  have rest: "\<forall>i<length xs. \<not> connect_ok ?w' (n_client ?w' + i)"
    using Cons.prems by auto
  have step: "connect_pool (x # xs) base w = connect_pool xs base ?w'"
    using first by (simp add: split_beta)
  have m: "map (\<lambda>i. Connect (n_client w + i) False) [0..<length (x # xs)] =
           Connect (n_client w) False # map (\<lambda>i. Connect (n_client ?w' + i) False) [0..<length xs]"
    by (simp add: map_upt_Suc del: upt_Suc)
  show ?case unfolding step m using Cons.IH [OF rest] by simp
qed

lemma upt_shift_Cons: "n # [Suc n..<Suc (n + k)] = [n..<n + Suc k]"
  by (simp add: upt_conv_Cons del: upt_Suc)

lemma connect_batch_events:
  "\<exists>es. trace (snd (connect_batch n a w)) = trace w @ es \<and>
        map fst (connects es) = [n_client w..<n_client w + n] \<and>
        length es = n \<and> publishes es = [] \<and>
        operations_count (fst (connect_batch n a w)) = operations_count a + length (filter snd (connects es)) \<and>
        clients (fst (connect_batch n a w)) = clients a @ map fst (filter snd (connects es))"
proof (induction n arbitrary: a w)
  case 0
  then show ?case by simp
next
  case (Suc n)
  let ?w2 = "snd (new_client (snd (randint 10000 999999 w)))"
  let ?c = "n_client w"
  show ?case
  proof (cases "connect_ok w ?c")
    case True
    let ?a' = "a\<lparr>clients := clients a @ [?c], operations_count := Suc (operations_count a)\<rparr>"
    let ?w' = "emit (Connect ?c True) ?w2"
    have step: "connect_batch (Suc n) a w = connect_batch n ?a' ?w'"
      using True by (simp add: split_beta)
    obtain es where es: "trace (snd (connect_batch n ?a' ?w')) = trace ?w' @ es"
      "map fst (connects es) = [n_client ?w'..<n_client ?w' + n]" "length es = n" "publishes es = []"
      "operations_count (fst (connect_batch n ?a' ?w')) = operations_count ?a' + length (filter snd (connects es))"
      "clients (fst (connect_batch n ?a' ?w')) = clients ?a' @ map fst (filter snd (connects es))"
      using Suc.IH [of ?a' ?w'] by blast
    show ?thesis unfolding step
      using es by (intro exI [of _ "Connect ?c True # es"]) (simp add: upt_shift_Cons del: upt_Suc)
  next
    case False
    let ?w' = "emit (Connect ?c False) ?w2"
    have step: "connect_batch (Suc n) a w = connect_batch n a ?w'"
      using False by (simp add: split_beta)
    obtain es where es: "trace (snd (connect_batch n a ?w')) = trace ?w' @ es"
      "map fst (connects es) = [n_client ?w'..<n_client ?w' + n]" "length es = n" "publishes es = []"
      "operations_count (fst (connect_batch n a ?w')) = operations_count a + length (filter snd (connects es))"
      "clients (fst (connect_batch n a ?w')) = clients a @ map fst (filter snd (connects es))"
      using Suc.IH [of a ?w'] by blast
    show ?thesis unfolding step
      using es by (intro exI [of _ "Connect ?c False # es"]) (simp add: upt_shift_Cons del: upt_Suc)
  qed
qed

lemma flood_connections_cycle_idle:
  assumes "dd_rate a < 10" "operations_count a = 0"
  shows "flood_connections_cycle a w = (a, sleep 1 (logger INFO (FloodConnections 0) w))"
proof -
  have "nat (min 10 (dd_rate a div 10)) = 0" using assms(1) by simp
  then show ?thesis using assms(2) by (simp add: flood_connections_cycle_def)
qed

lemma flood_connections_loop_idle:
  assumes "dd_rate a < 10" "operations_count a = 0"
  shows "\<exists>es. trace (snd (flood_connections_loop t0 duration a w)) = trace w @ es \<and>
           connects es = [] \<and>
           (\<forall>n. LogLine INFO (FloodConnections n) \<in> set es \<longrightarrow> n = 0) \<and>
           operations_count (fst (flood_connections_loop t0 duration a w)) = 0 \<and>
           n_client (snd (flood_connections_loop t0 duration a w)) = n_client w \<and>
           now w \<le> now (snd (flood_connections_loop t0 duration a w)) \<and>
           (stop_at w = None \<and> dd_running a \<longrightarrow>
              t0 + duration \<le> now (snd (flood_connections_loop t0 duration a w)))"
  using assms
proof (induction "nat \<lceil>t0 + duration - now w\<rceil>" arbitrary: a w rule: less_induct)
  case less
  define a1 where "a1 = (if stop_due t0 w then fst (DDoSAttack_stop a w) else a)"
  define w1 where "w1 = (if stop_due t0 w then snd (DDoSAttack_stop a w) else w)"
  define es0 where "es0 = (if stop_due t0 w then map Disconnect (clients a) else [])"
  have d: "(if stop_due t0 w then DDoSAttack_stop a w else (a, w)) = (a1, w1)"
    by (simp add: a1_def w1_def)
  have f: "dd_rate a1 < 10" "operations_count a1 = 0" "now w1 = now w" "n_client w1 = n_client w"
    "stop_at w1 = stop_at w" "trace w1 = trace w @ es0"
    using less.prems by (simp_all add: a1_def w1_def es0_def)
  have nostop: "a1 = a \<and> w1 = w" if "stop_at w = None"
    using that by (simp add: a1_def w1_def stop_due_def)
  have es0: "connects es0 = []" "\<And>n. LogLine INFO (FloodConnections n) \<notin> set es0"
    by (auto simp: es0_def)
  show ?case
  proof (cases "dd_running a1 \<and> now w1 - t0 < duration")
    case False
    have r: "flood_connections_loop t0 duration a w = (a1, w1)"
      using False by (subst flood_connections_loop.simps) (simp add: d)
    have "stop_at w = None \<and> dd_running a \<longrightarrow> t0 + duration \<le> now w1"
      using False nostop by auto
    then show ?thesis
      unfolding r using f es0 by (intro exI [of _ es0]) simp
  next
    case True
    let ?w2 = "sleep 1 (logger INFO (FloodConnections 0) w1)"
    have c: "flood_connections_cycle a1 w1 = (a1, ?w2)"
      using f(1,2) by (rule flood_connections_cycle_idle)
    have r: "flood_connections_loop t0 duration a w = flood_connections_loop t0 duration a1 ?w2"
      using True by (subst flood_connections_loop.simps) (simp add: d c)
    have m: "nat \<lceil>t0 + duration - now ?w2\<rceil> < nat \<lceil>t0 + duration - now w\<rceil>"
      using d [symmetric] True c by (intro flood_connections_loop_step [of a1 w1 t0 w a duration a1 ?w2]) auto
    obtain es where es: "trace (snd (flood_connections_loop t0 duration a1 ?w2)) = trace ?w2 @ es"
      "connects es = []" "\<forall>n. LogLine INFO (FloodConnections n) \<in> set es \<longrightarrow> n = 0"
      "operations_count (fst (flood_connections_loop t0 duration a1 ?w2)) = 0"
      "n_client (snd (flood_connections_loop t0 duration a1 ?w2)) = n_client ?w2"
      "now ?w2 \<le> now (snd (flood_connections_loop t0 duration a1 ?w2))"
      "stop_at ?w2 = None \<and> dd_running a1 \<longrightarrow>
         t0 + duration \<le> now (snd (flood_connections_loop t0 duration a1 ?w2))"
      using less.hyps [OF m f(1,2)] by blast
    let ?es = "es0 @ [LogLine INFO (FloodConnections 0), Sleep 1] @ es"
    have t: "trace (snd (flood_connections_loop t0 duration a1 ?w2)) = trace w @ ?es"
      using es(1) f(6) by simp
    have l: "\<forall>n. LogLine INFO (FloodConnections n) \<in> set ?es \<longrightarrow> n = 0"
      using es(3) es0(2) by auto
    have k: "connects ?es = []" using es(2) es0(1) by simp
    have n: "now w \<le> now (snd (flood_connections_loop t0 duration a1 ?w2))"
      using es(6) f(3) by simp
    have s: "stop_at w = None \<and> dd_running a \<longrightarrow>
               t0 + duration \<le> now (snd (flood_connections_loop t0 duration a1 ?w2))"
      using es(7) nostop f(5) by auto
    show ?thesis
      unfolding r using t k l es(4) es(5) f(4) n s by (intro exI [of _ ?es]) simp
  qed
qed

lemma no_connect_refl [simp]: "no_connect w w"
  by (simp add: no_connect_def)

lemma no_connect_trans: "no_connect w w1 \<Longrightarrow> no_connect w1 w2 \<Longrightarrow> no_connect w w2"
  by (auto simp: no_connect_def)

lemma no_connect_same_trace: "trace w' = trace w \<Longrightarrow> no_connect w w'"
  by (simp add: no_connect_def)

lemma no_connect_step: "trace w' = trace w @ es \<Longrightarrow> connects es = [] \<Longrightarrow> no_connect w w'"
  by (auto simp: no_connect_def)

lemma opened_append [simp]: "opened (xs @ ys) = opened xs @ opened ys"
  by (simp add: opened_def)

lemma opened_simps [simp]:
  "opened [] = []" "opened (Connect c True # es) = c # opened es"
  "opened (Connect c False # es) = opened es" "opened (LogLine l m # es) = opened es"
  "opened (LoopStart c # es) = opened es"
  by (simp_all add: opened_def)

lemma opened_no_connects: "connects es = [] \<Longrightarrow> opened es = []"
  by (simp add: opened_def)

lemma fold_close_fields [simp]:
  "trace (close_pool cs w) = trace w @ close_events cs"
  "now (close_pool cs w) = now w" "n_publish (close_pool cs w) = n_publish w"
  by (induction cs arbitrary: w; simp add: close_pool_def close_events_def)+

lemma publish_topics_fields [simp]:
  "now (snd (snd (publish_topics c ts a w))) = now w"
  "stop_at (snd (snd (publish_topics c ts a w))) = stop_at w"
  "connect_ok (snd (snd (publish_topics c ts a w))) = connect_ok w"
  "publish_res (snd (snd (publish_topics c ts a w))) = publish_res w"
  "n_client (snd (snd (publish_topics c ts a w))) = n_client w"
  "dd_running (fst (snd (publish_topics c ts a w))) = dd_running a"
  "dd_rate (fst (snd (publish_topics c ts a w))) = dd_rate a"
  "clients (fst (snd (publish_topics c ts a w))) = clients a"
  "attack_type (fst (snd (publish_topics c ts a w))) = attack_type a"
  by (induction ts arbitrary: a w; simp add: split_beta)+

lemma publish_topics_no_connect: "no_connect w (snd (snd (publish_topics c ts a w)))"
proof (induction ts arbitrary: a w)
  case Nil
  then show ?case by simp
next
  case (Cons t ts)
  let ?w2 = "snd (client_publish c t (Text (fst (random_string ascii_letters 50 w)))
                (snd (random_string ascii_letters 50 w)))"
  have s: "no_connect w ?w2" by (rule no_connect_step [of _ _ "[Publish c t (Text (fst (random_string ascii_letters 50 w))) (publish_res w (n_publish w))]"]) simp_all
  show ?case
  proof (cases "publish_res w (n_publish w) = PubRaise")
    case True
    then show ?thesis using s by (simp add: split_beta)
  next
    case False
    then show ?thesis
      using no_connect_trans [OF s Cons.IH [where a = "a\<lparr>operations_count := Suc (operations_count a)\<rparr>" and w = ?w2]]
      by (simp add: split_beta)
  qed
qed

lemma publish_clients_fields [simp]:
  "now (snd (snd (publish_clients cs ts a w))) = now w"
  "stop_at (snd (snd (publish_clients cs ts a w))) = stop_at w"
  "connect_ok (snd (snd (publish_clients cs ts a w))) = connect_ok w"
  "publish_res (snd (snd (publish_clients cs ts a w))) = publish_res w"
  "n_client (snd (snd (publish_clients cs ts a w))) = n_client w"
  "dd_running (fst (snd (publish_clients cs ts a w))) = dd_running a"
  "dd_rate (fst (snd (publish_clients cs ts a w))) = dd_rate a"
  "clients (fst (snd (publish_clients cs ts a w))) = clients a"
  "attack_type (fst (snd (publish_clients cs ts a w))) = attack_type a"
  by (induction cs arbitrary: a w; simp add: split_beta split: option.splits prod.splits;
      metis publish_topics_fields fst_conv snd_conv)+

lemma publish_clients_Cons:
  "publish_clients (c # rest) ts a w =
     (if fst (publish_topics c ts a w) = None
      then publish_clients rest ts (fst (snd (publish_topics c ts a w))) (snd (snd (publish_topics c ts a w)))
      else publish_topics c ts a w)"
  by (simp split: prod.splits option.splits)

lemma publish_clients_no_connect: "no_connect w (snd (snd (publish_clients cs ts a w)))"
proof (induction cs arbitrary: a w)
  case Nil
  then show ?case by simp
next
  case (Cons c cs)
  show ?case
    unfolding publish_clients_Cons
    using publish_topics_no_connect [of w c ts a]
      no_connect_trans [OF publish_topics_no_connect [of w c ts a]
        Cons.IH [where a = "fst (snd (publish_topics c ts a w))" and w = "snd (snd (publish_topics c ts a w))"]]
    by simp
qed

lemma flood_publish_cycle_eq:
  "flood_publish_cycle cs ts a w =
     (if fst (publish_clients cs ts a w) = None
      then (fst (snd (publish_clients cs ts a w)),
            sleep 1 (if operations_count (fst (snd (publish_clients cs ts a w))) mod 100 = 0
                     then logger INFO (FloodPublished (operations_count (fst (snd (publish_clients cs ts a w)))))
                            (snd (snd (publish_clients cs ts a w)))
                     else snd (snd (publish_clients cs ts a w))))
      else (fst (snd (publish_clients cs ts a w)),
            logger ERROR (FloodPublishError (the (fst (publish_clients cs ts a w))))
              (snd (snd (publish_clients cs ts a w)))))"
  by (simp add: flood_publish_cycle_def Let_def split: prod.splits option.splits)

lemma flood_publish_cycle_fields [simp]:
  "stop_at (snd (flood_publish_cycle cs ts a w)) = stop_at w"
  "connect_ok (snd (flood_publish_cycle cs ts a w)) = connect_ok w"
  "publish_res (snd (flood_publish_cycle cs ts a w)) = publish_res w"
  "n_client (snd (flood_publish_cycle cs ts a w)) = n_client w"
  "dd_running (fst (flood_publish_cycle cs ts a w)) = dd_running a"
  "dd_rate (fst (flood_publish_cycle cs ts a w)) = dd_rate a"
  "clients (fst (flood_publish_cycle cs ts a w)) = clients a"
  "attack_type (fst (flood_publish_cycle cs ts a w)) = attack_type a"
  by (simp_all add: flood_publish_cycle_eq)

lemma flood_publish_cycle_no_connect: "no_connect w (snd (flood_publish_cycle cs ts a w))"
proof -
  let ?r = "publish_clients cs ts a w"
  have a: "no_connect w (snd (snd ?r))" by (rule publish_clients_no_connect)
  have b: "no_connect (snd (snd ?r)) (snd (flood_publish_cycle cs ts a w))"
    unfolding flood_publish_cycle_eq
    by (auto intro: no_connect_step [of _ _ "[LogLine l m]" for l m]
          no_connect_step [of _ _ "[Sleep 1]"] no_connect_step [of _ _ "[LogLine l m, Sleep 1]" for l m])
  show ?thesis using a b by (rule no_connect_trans)
qed

lemma DDoSAttack_stop_no_connect: "no_connect w (snd (DDoSAttack_stop a w))"
  by (rule no_connect_step [of _ _ "map Disconnect (clients a)"]) simp_all

lemma flood_publish_loop_no_connect:
  "flood_publish_loop fuel t0 duration cs ts a w = Some (a', w') \<Longrightarrow> no_connect w w'"
proof (induction fuel arbitrary: a w)
  case 0
  then show ?case by simp
next
  case (Suc k)
  define a1 where "a1 = (if stop_due t0 w then fst (DDoSAttack_stop a w) else a)"
  define w1 where "w1 = (if stop_due t0 w then snd (DDoSAttack_stop a w) else w)"
  have d: "(if stop_due t0 w then DDoSAttack_stop a w else (a, w)) = (a1, w1)"
    by (simp add: a1_def w1_def)
  have n1: "no_connect w w1" by (simp add: w1_def DDoSAttack_stop_no_connect)
  show ?case
  proof (cases "dd_running a1 \<and> now w1 - t0 < duration")
    case False
    then have "w' = w1" using Suc.prems by (simp add: d)
    then show ?thesis using n1 by simp
  next
    case True
    let ?a2 = "fst (flood_publish_cycle cs ts a1 w1)"
    let ?w2 = "snd (flood_publish_cycle cs ts a1 w1)"
    have "flood_publish_loop k t0 duration cs ts ?a2 ?w2 = Some (a', w')"
      using True Suc.prems by (simp add: d split_beta)
    then have "no_connect ?w2 w'" by (rule Suc.IH)
    then show ?thesis
      using n1 flood_publish_cycle_no_connect [of w1 cs ts a1] by (blast intro: no_connect_trans)
  qed
qed

lemma connect_pool_opened:
  "\<exists>es. trace (snd (connect_pool xs base w)) = trace w @ es \<and>
        fst (connect_pool xs base w) = base @ opened es \<and> publishes es = []"
proof (induction xs arbitrary: base w)
  case Nil
  then show ?case by simp
next
  case (Cons x xs)
  let ?w2 = "snd (new_client (snd (randint 1000 9999 w)))"
  let ?c = "n_client w"
  show ?case
  proof (cases "connect_ok w ?c")
    case True
    let ?w' = "emit (LoopStart ?c) (emit (Connect ?c True) ?w2)"
    have step: "connect_pool (x # xs) base w = connect_pool xs (base @ [?c]) ?w'"
      using True by (simp add: split_beta)
    obtain es where es: "trace (snd (connect_pool xs (base @ [?c]) ?w')) = trace ?w' @ es"
      "fst (connect_pool xs (base @ [?c]) ?w') = (base @ [?c]) @ opened es" "publishes es = []"
      using Cons.IH [where base = "base @ [?c]" and w = ?w'] by blast
    show ?thesis unfolding step
      using es by (intro exI [of _ "Connect ?c True # LoopStart ?c # es"]) simp
  next
    case False
    let ?w' = "emit (Connect ?c False) ?w2"
    have step: "connect_pool (x # xs) base w = connect_pool xs base ?w'"
      using False by (simp add: split_beta)
    obtain es where es: "trace (snd (connect_pool xs base ?w')) = trace ?w' @ es"
      "fst (connect_pool xs base ?w') = base @ opened es" "publishes es = []"
      using Cons.IH [where base = base and w = ?w'] by blast
    show ?thesis unfolding step
      using es by (intro exI [of _ "Connect ?c False # es"]) simp
  qed
qed

lemma publish_topics_progress:
  "n_publish w \<le> n_publish (snd (snd (publish_topics c ts a w))) \<and>
   (fst (publish_topics c ts a w) \<noteq> None \<longrightarrow>
      (\<exists>k. n_publish w \<le> k \<and> k < n_publish (snd (snd (publish_topics c ts a w))) \<and>
           publish_res w k = PubRaise))"
proof (induction ts arbitrary: a w)
  case Nil
  then show ?case by simp
next
  case (Cons t ts)
  let ?w2 = "snd (client_publish c t (Text (fst (random_string ascii_letters 50 w)))
                (snd (random_string ascii_letters 50 w)))"
  show ?case
  proof (cases "publish_res w (n_publish w) = PubRaise")
    case True
    then show ?thesis by (auto simp: split_beta)
  next
    case False
    have "n_publish ?w2 = Suc (n_publish w)" "publish_res ?w2 = publish_res w" by simp_all
    then show ?thesis
      using False Cons.IH [where a = "a\<lparr>operations_count := Suc (operations_count a)\<rparr>" and w = ?w2]
      by (simp add: split_beta) (metis Suc_leD)
  qed
qed

lemma publish_clients_progress:
  "n_publish w \<le> n_publish (snd (snd (publish_clients cs ts a w))) \<and>
   (fst (publish_clients cs ts a w) \<noteq> None \<longrightarrow>
      (\<exists>k. n_publish w \<le> k \<and> k < n_publish (snd (snd (publish_clients cs ts a w))) \<and>
           publish_res w k = PubRaise))"
proof (induction cs arbitrary: a w)
  case Nil
  then show ?case by simp
next
  case (Cons c cs)
  let ?r = "publish_topics c ts a w"
  show ?case
  proof (cases "fst ?r = None")
    case True
    have p: "publish_res (snd (snd ?r)) = publish_res w" by simp
    show ?thesis
      unfolding publish_clients_Cons
      using True publish_topics_progress [of w c ts a]
        Cons.IH [where a = "fst (snd ?r)" and w = "snd (snd ?r)"]
      unfolding p
      by simp (metis le_trans)
  next
    case False
    have e: "publish_clients (c # cs) ts a w = ?r"
      unfolding publish_clients_Cons using False by (rule if_not_P)
    show ?thesis unfolding e by (rule publish_topics_progress)
  qed
qed

lemma flood_publish_cycle_progress:
  "(now (snd (flood_publish_cycle cs ts a w)) = now w + 1 \<and>
    n_publish w \<le> n_publish (snd (flood_publish_cycle cs ts a w))) \<or>
   (now (snd (flood_publish_cycle cs ts a w)) = now w \<and>
    (\<exists>k. n_publish w \<le> k \<and> k < n_publish (snd (flood_publish_cycle cs ts a w)) \<and>
         publish_res w k = PubRaise))"
  using publish_clients_progress [of w cs ts a]
  by (cases "fst (publish_clients cs ts a w) = None") (simp_all add: flood_publish_cycle_eq)

lemma flood_publish_loop_returns:
  assumes "\<forall>k\<ge>K. publish_res w k \<noteq> PubRaise"
    and "(K - n_publish w) + nat \<lceil>t0 + duration - now w\<rceil> < fuel"
  shows "flood_publish_loop fuel t0 duration cs ts a w \<noteq> None"
  using assms
proof (induction fuel arbitrary: a w)
  case 0
  then show ?case by simp
next
  case (Suc n)
  define a1 where "a1 = (if stop_due t0 w then fst (DDoSAttack_stop a w) else a)"
  define w1 where "w1 = (if stop_due t0 w then snd (DDoSAttack_stop a w) else w)"
  have d: "(if stop_due t0 w then DDoSAttack_stop a w else (a, w)) = (a1, w1)"
    by (simp add: a1_def w1_def)
  have f: "now w1 = now w" "n_publish w1 = n_publish w" "publish_res w1 = publish_res w"
    by (simp_all add: w1_def)
  show ?case
  proof (cases "dd_running a1 \<and> now w1 - t0 < duration")
    case False
    then show ?thesis by (simp add: d)
  next
    case True
    let ?a2 = "fst (flood_publish_cycle cs ts a1 w1)"
    let ?w2 = "snd (flood_publish_cycle cs ts a1 w1)"
    have r: "flood_publish_loop (Suc n) t0 duration cs ts a w = flood_publish_loop n t0 duration cs ts ?a2 ?w2"
      using True by (simp add: d split_beta)
    have pos: "0 < t0 + duration - now w" using True f(1) by simp
    have less: "(K - n_publish ?w2) + nat \<lceil>t0 + duration - now ?w2\<rceil>
                  < (K - n_publish w) + nat \<lceil>t0 + duration - now w\<rceil>"
      using flood_publish_cycle_progress [of cs ts a1 w1]
    proof (elim disjE conjE exE)
      assume n: "now ?w2 = now w1 + 1" and p: "n_publish w1 \<le> n_publish ?w2"
      have e: "t0 + duration - now ?w2 = (t0 + duration - now w) - 1" using n f(1) by simp
      have "nat \<lceil>t0 + duration - now ?w2\<rceil> < nat \<lceil>t0 + duration - now w\<rceil>"
        unfolding e using pos by (rule ceiling_pred)
      moreover have "K - n_publish ?w2 \<le> K - n_publish w" using p f(2) by simp
      ultimately show ?thesis by linarith
    next
      fix k
      assume n: "now ?w2 = now w1" and k: "n_publish w1 \<le> k" "k < n_publish ?w2"
        "publish_res w1 k = PubRaise"
      have "k < K" using k(3) f(3) Suc.prems(1) by (metis not_le)
      then have "K - n_publish ?w2 < K - n_publish w" using k(1,2) f(2) by linarith
      then show ?thesis using n f(1) by simp
    qed
    have p2: "\<forall>k\<ge>K. publish_res ?w2 k \<noteq> PubRaise" using Suc.prems(1) f(3) by simp
    have "(K - n_publish ?w2) + nat \<lceil>t0 + duration - now ?w2\<rceil> < n"
      using less Suc.prems(2) by linarith
    then show ?thesis unfolding r using p2 by (intro Suc.IH)
  qed
qed

lemma flood_publish_returns:
  assumes "\<forall>k\<ge>K. publish_res w k \<noteq> PubRaise"
    and "(K - n_publish w) + nat \<lceil>duration\<rceil> < fuel"
  shows "\<exists>a' w'. flood_publish fuel duration a w = Some (a', w')"
proof -
  let ?p = "connect_pool [0..<5] [] w"
  have p: "\<forall>k\<ge>K. publish_res (snd ?p) k \<noteq> PubRaise" using assms(1) by simp
  have "now w + duration - now (snd ?p) = duration" by simp
  then have m: "(K - n_publish (snd ?p)) + nat \<lceil>now w + duration - now (snd ?p)\<rceil> < fuel"
    using assms(2) by simp
  have "flood_publish_loop fuel (now w) duration (fst ?p) flood_topics a (snd ?p) \<noteq> None"
    using p m by (rule flood_publish_loop_returns)
  then have "flood_publish fuel duration a w \<noteq> None"
    by (auto simp: flood_publish_def split_beta Let_def)
  then show ?thesis by auto
qed

lemma upt_0_10: "[0..<10] = [0, 1, 2, 3, 4, 5, 6, 7, 8, 9]"
  by code_simp

lemma flood_topics_list:
  "flood_topics = map (\<lambda>i. ''ddos/flood/topic/'' @ str_nat i) [0, 1, 2, 3, 4, 5, 6, 7, 8, 9]"
  by (simp only: flood_topics_def upt_0_10)

lemma length_flood_topics [simp]: "length flood_topics = 10"
  by (simp add: flood_topics_def)

lemma publish_topics_ok:
  assumes "\<forall>k<length ts. publish_res w (n_publish w + k) \<noteq> PubRaise"
  shows "fst (publish_topics c ts a w) = None \<and>
         operations_count (fst (snd (publish_topics c ts a w))) = operations_count a + length ts \<and>
         n_publish (snd (snd (publish_topics c ts a w))) = n_publish w + length ts \<and>
         (\<exists>es. trace (snd (snd (publish_topics c ts a w))) = trace w @ es \<and>
               map (\<lambda>(c, t, p). (c, t)) (publishes es) = map (Pair c) ts \<and>
               list_all (\<lambda>(c, t, p). payload50 p) (publishes es))"
  using assms
proof (induction ts arbitrary: a w)
  case Nil
  then show ?case by simp
next
  case (Cons t ts)
  let ?p = "Text (fst (random_string ascii_letters 50 w))"
  let ?w2 = "snd (client_publish c t ?p (snd (random_string ascii_letters 50 w)))"
  let ?a2 = "a\<lparr>operations_count := Suc (operations_count a)\<rparr>"
  have first: "publish_res w (n_publish w) \<noteq> PubRaise" using Cons.prems by force
  have rest: "\<forall>k<length ts. publish_res ?w2 (n_publish ?w2 + k) \<noteq> PubRaise"
    using Cons.prems by auto
  have step: "publish_topics c (t # ts) a w = publish_topics c ts ?a2 ?w2"
    using first by (simp add: split_beta)
  obtain es where es: "fst (publish_topics c ts ?a2 ?w2) = None"
    "operations_count (fst (snd (publish_topics c ts ?a2 ?w2))) = operations_count ?a2 + length ts"
    "n_publish (snd (snd (publish_topics c ts ?a2 ?w2))) = n_publish ?w2 + length ts"
    "trace (snd (snd (publish_topics c ts ?a2 ?w2))) = trace ?w2 @ es"
    "map (\<lambda>(c, t, p). (c, t)) (publishes es) = map (Pair c) ts"
    "list_all (\<lambda>(c, t, p). payload50 p) (publishes es)"
    using Cons.IH [where a = ?a2 and w = ?w2, OF rest] by blast
  let ?es = "Publish c t ?p (publish_res w (n_publish w)) # es"
  have "trace (snd (snd (publish_topics c ts ?a2 ?w2))) = trace w @ ?es \<and>
        map (\<lambda>(c, t, p). (c, t)) (publishes ?es) = map (Pair c) (t # ts) \<and>
        list_all (\<lambda>(c, t, p). payload50 p) (publishes ?es)"
    using es(4,5,6) by simp
  then have "\<exists>es. trace (snd (snd (publish_topics c ts ?a2 ?w2))) = trace w @ es \<and>
        map (\<lambda>(c, t, p). (c, t)) (publishes es) = map (Pair c) (t # ts) \<and>
        list_all (\<lambda>(c, t, p). payload50 p) (publishes es)"
    by (rule exI)
  then show ?case unfolding step using es(1,2,3) by simp
qed

lemma publish_clients_ok:
  assumes "\<forall>k<length cs * length ts. publish_res w (n_publish w + k) \<noteq> PubRaise"
  shows "fst (publish_clients cs ts a w) = None \<and>
         operations_count (fst (snd (publish_clients cs ts a w))) = operations_count a + length cs * length ts \<and>
         (\<exists>es. trace (snd (snd (publish_clients cs ts a w))) = trace w @ es \<and>
               map (\<lambda>(c, t, p). (c, t)) (publishes es) = List.product cs ts \<and>
               list_all (\<lambda>(c, t, p). payload50 p) (publishes es))"
  using assms
proof (induction cs arbitrary: a w)
  case Nil
  then show ?case by simp
next
  case (Cons c cs)
  let ?r = "publish_topics c ts a w"
  have first: "\<forall>k<length ts. publish_res w (n_publish w + k) \<noteq> PubRaise"
    using Cons.prems by (simp add: trans_less_add1)
  obtain es1 where r: "fst ?r = None" "operations_count (fst (snd ?r)) = operations_count a + length ts"
    "n_publish (snd (snd ?r)) = n_publish w + length ts"
    "trace (snd (snd ?r)) = trace w @ es1"
    "map (\<lambda>(c, t, p). (c, t)) (publishes es1) = map (Pair c) ts"
    "list_all (\<lambda>(c, t, p). payload50 p) (publishes es1)"
    using publish_topics_ok [OF first, of c a] by blast
  have rest: "\<forall>k<length cs * length ts. publish_res (snd (snd ?r)) (n_publish (snd (snd ?r)) + k) \<noteq> PubRaise"
  proof (intro allI impI)
    fix k assume "k < length cs * length ts"
    then have "length ts + k < length (c # cs) * length ts" by simp
    then have "publish_res w (n_publish w + (length ts + k)) \<noteq> PubRaise" using Cons.prems by blast
    then show "publish_res (snd (snd ?r)) (n_publish (snd (snd ?r)) + k) \<noteq> PubRaise"
      using r(3) by (simp add: add.assoc)
  qed
  let ?q = "publish_clients cs ts (fst (snd ?r)) (snd (snd ?r))"
  obtain es2 where q: "fst ?q = None"
    "operations_count (fst (snd ?q)) = operations_count (fst (snd ?r)) + length cs * length ts"
    "trace (snd (snd ?q)) = trace (snd (snd ?r)) @ es2"
    "map (\<lambda>(c, t, p). (c, t)) (publishes es2) = List.product cs ts"
    "list_all (\<lambda>(c, t, p). payload50 p) (publishes es2)"
    using Cons.IH [where a = "fst (snd ?r)" and w = "snd (snd ?r)", OF rest] by blast
  have step: "publish_clients (c # cs) ts a w = ?q"
    unfolding publish_clients_Cons using r(1) by (rule if_P)
  have "trace (snd (snd ?q)) = trace w @ (es1 @ es2) \<and>
        map (\<lambda>(c, t, p). (c, t)) (publishes (es1 @ es2)) = List.product (c # cs) ts \<and>
        list_all (\<lambda>(c, t, p). payload50 p) (publishes (es1 @ es2))"
    using r(4,5,6) q(3,4,5) by simp
  then have "\<exists>es. trace (snd (snd ?q)) = trace w @ es \<and>
        map (\<lambda>(c, t, p). (c, t)) (publishes es) = List.product (c # cs) ts \<and>
        list_all (\<lambda>(c, t, p). payload50 p) (publishes es)"
    by (rule exI)
  then show ?case unfolding step using q(1,2) r(2) by simp
qed

lemma final_reports_append [simp]: "final_reports (xs @ ys) = final_reports xs @ final_reports ys"
  by (induction xs rule: final_reports.induct) simp_all

lemma no_report_refl [simp]: "no_report w w"
  by (simp add: no_report_def)

lemma no_report_trans: "no_report w w1 \<Longrightarrow> no_report w1 w2 \<Longrightarrow> no_report w w2"
  by (auto simp: no_report_def)

lemma no_report_step: "trace w' = trace w @ es \<Longrightarrow> final_reports es = [] \<Longrightarrow> no_report w w'"
  by (auto simp: no_report_def)

lemma attempt_login_no_report: "no_report w (snd (attempt_login a p w))"
proof (cases "connect_ok w (n_client w)")
  case True
  then show ?thesis
    by (intro no_report_step [of _ _ "[Connect (n_client w) True, Disconnect (n_client w),
          LogLine WARNING (BruteSuccess (bf_target_username a) p)]"])
       (simp_all add: attempt_login_def split_beta)
next
  case False
  then show ?thesis
    by (intro no_report_step [of _ _ "[Connect (n_client w) False]"])
       (simp_all add: attempt_login_def split_beta)
qed

lemma generate_password_fields [simp]:
  "now (snd (generate_password n w)) = now w" "stop_at (snd (generate_password n w)) = stop_at w"
  "connect_ok (snd (generate_password n w)) = connect_ok w"
  "n_client (snd (generate_password n w)) = n_client w"
  "trace (snd (generate_password n w)) = trace w"
  by (simp_all add: generate_password_def)

lemma bf_attempt_fields [simp]:
  "bf_running (fst (snd (bf_attempt a w))) = bf_running a"
  "bf_rate (fst (snd (bf_attempt a w))) = bf_rate a"
  "password_attempts (fst (snd (bf_attempt a w))) = Suc (password_attempts a)"
  "stop_at (snd (snd (bf_attempt a w))) = stop_at w"
  "now (snd (snd (bf_attempt a w))) = (if 0 < bf_rate a then now w + 1 / of_int (bf_rate a) else now w)"
  "fst (bf_attempt a w) =
     (if bf_rate a = 0 then Some ZeroDivisionError else if bf_rate a < 0 then Some ValueError else None)"
  by (simp_all add: bf_attempt_def split_beta Let_def)

lemma bf_attempt_no_report: "no_report w (snd (snd (bf_attempt a w)))"
proof -
  let ?w1 = "snd (generate_password 8 w)"
  let ?w2 = "snd (attempt_login a (fst (generate_password 8 w)) ?w1)"
  have "no_report ?w1 ?w2" by (rule attempt_login_no_report)
  moreover have "no_report w ?w1" by (rule no_report_step [of _ _ "[]"]) simp_all
  ultimately have a: "no_report w ?w2" using no_report_trans by blast
  have b: "no_report ?w2 (snd (snd (bf_attempt a w)))"
    by (auto simp: bf_attempt_def split_beta Let_def
          intro: no_report_step [of _ _ "[Sleep x]" for x]
                 no_report_step [of _ _ "[Sleep x, LogLine INFO (BruteProgress n)]" for x n])
  show ?thesis using a b by (rule no_report_trans)
qed

declare bf_loop.simps [simp del]

declare flood_connections_loop.simps [simp del]

lemma bf_loop_cases:
  assumes "a1 = (if stop_due t0 w then BruteForceAttack_stop a else a)"
  shows "bf_loop t0 duration a w =
     (if \<not> (bf_running a1 \<and> now w - t0 < duration) then (None, a1, w)
      else if fst (bf_attempt a1 w) = None
           then bf_loop t0 duration (fst (snd (bf_attempt a1 w))) (snd (snd (bf_attempt a1 w)))
           else bf_attempt a1 w)"
proof -
  obtain e a2 w2 where b: "bf_attempt a1 w = (e, a2, w2)" by (cases "bf_attempt a1 w") auto
  show ?thesis
    by (subst bf_loop.simps) (cases e; simp add: Let_def assms [symmetric] b)
qed

lemma bf_loop_exit:
  assumes "a1 = (if stop_due t0 w then BruteForceAttack_stop a else a)"
    and "\<not> (bf_running a1 \<and> now w - t0 < duration)"
  shows "bf_loop t0 duration a w = (None, a1, w)"
  by (subst bf_loop_cases [OF assms(1)]) (simp only: assms(2) if_True simp_thms)

lemma bf_loop_raise:
  assumes "a1 = (if stop_due t0 w then BruteForceAttack_stop a else a)"
    and "bf_running a1 \<and> now w - t0 < duration"
    and "fst (bf_attempt a1 w) \<noteq> None"
  shows "bf_loop t0 duration a w = bf_attempt a1 w"
  by (subst bf_loop_cases [OF assms(1)]) (simp only: assms(2,3) if_False simp_thms)

lemma bf_loop_step:
  assumes "a1 = (if stop_due t0 w then BruteForceAttack_stop a else a)"
    and "bf_running a1 \<and> now w - t0 < duration"
    and "fst (bf_attempt a1 w) = None"
  shows "bf_loop t0 duration a w =
           bf_loop t0 duration (fst (snd (bf_attempt a1 w))) (snd (snd (bf_attempt a1 w)))"
  by (subst bf_loop_cases [OF assms(1)]) (simp only: assms(2,3) if_True if_False simp_thms)

lemma bf_guard_iff:
  assumes "bf_running a"
  shows "(bf_running (if stop_due t0 w then BruteForceAttack_stop a else a) \<and> now w - t0 < duration)
           \<longleftrightarrow> now w < loop_deadline t0 duration (stop_at w)"
  using assms
  by (cases "stop_at w") (auto simp: loop_deadline_def stop_due_def BruteForceAttack_stop_def)

lemma bf_loop_general:
  "no_report w (snd (snd (bf_loop t0 duration a w))) \<and>
   stop_at (snd (snd (bf_loop t0 duration a w))) = stop_at w \<and>
   bf_rate (fst (snd (bf_loop t0 duration a w))) = bf_rate a \<and>
   now w \<le> now (snd (snd (bf_loop t0 duration a w)))"
proof (induction "nat \<lceil>(t0 + duration - now w) * of_int (bf_rate a)\<rceil>" arbitrary: a w rule: less_induct)
  case less
  define a1 where "a1 = (if stop_due t0 w then BruteForceAttack_stop a else a)"
  have r1: "bf_rate a1 = bf_rate a" by (simp add: a1_def BruteForceAttack_stop_def)
  let ?b = "bf_attempt a1 w"
  show ?case
  proof (cases "bf_running a1 \<and> now w - t0 < duration")
    case False
    have "bf_loop t0 duration a w = (None, a1, w)"
      using a1_def False by (rule bf_loop_exit)
    then show ?thesis by (simp add: r1)
  next
    case True
    show ?thesis
    proof (cases "0 < bf_rate a")
      case False
      then have "fst ?b \<noteq> None" by (simp add: r1)
      with a1_def True have "bf_loop t0 duration a w = ?b" by (rule bf_loop_raise)
      then show ?thesis using False bf_attempt_no_report [of w a1] by (simp add: r1)
    next
      case pos: True
      let ?a2 = "fst (snd ?b)" and ?w2 = "snd (snd ?b)"
      have n: "fst ?b = None" using pos by (simp add: r1)
      then have e: "?b = (None, ?a2, ?w2)" by (metis prod.collapse)
      have r: "bf_loop t0 duration a w = bf_loop t0 duration ?a2 ?w2"
        using a1_def True n by (rule bf_loop_step)
      have m: "nat \<lceil>(t0 + duration - now ?w2) * of_int (bf_rate ?a2)\<rceil>
                 < nat \<lceil>(t0 + duration - now w) * of_int (bf_rate a)\<rceil>"
        using True e r1 by (intro bf_loop_decreases [of w t0 duration a1 ?a2 ?w2]) auto
      have ih: "no_report ?w2 (snd (snd (bf_loop t0 duration ?a2 ?w2))) \<and>
                stop_at (snd (snd (bf_loop t0 duration ?a2 ?w2))) = stop_at ?w2 \<and>
                bf_rate (fst (snd (bf_loop t0 duration ?a2 ?w2))) = bf_rate ?a2 \<and>
                now ?w2 \<le> now (snd (snd (bf_loop t0 duration ?a2 ?w2)))"
        using m by (rule less.hyps)
      have "now w \<le> now ?w2" using pos by (simp add: r1)
      then show ?thesis
        unfolding r using ih no_report_trans [OF bf_attempt_no_report [of w a1]] by (auto simp: r1)
    qed
  qed
qed

lemma bf_loop_running:
  assumes "0 < bf_rate a" and "bf_running a"
  shows "fst (bf_loop t0 duration a w) = None \<and>
         loop_deadline t0 duration (stop_at w) \<le> now (snd (snd (bf_loop t0 duration a w))) \<and>
         (now (snd (snd (bf_loop t0 duration a w))) = now w \<or>
          now (snd (snd (bf_loop t0 duration a w))) - 1 / of_int (bf_rate a)
            < loop_deadline t0 duration (stop_at w)) \<and>
         of_nat (password_attempts (fst (snd (bf_loop t0 duration a w))))
           = of_nat (password_attempts a)
             + (now (snd (snd (bf_loop t0 duration a w))) - now w) * of_int (bf_rate a)"
  using assms
proof (induction "nat \<lceil>(t0 + duration - now w) * of_int (bf_rate a)\<rceil>" arbitrary: a w rule: less_induct)
  case less
  define a1 where "a1 = (if stop_due t0 w then BruteForceAttack_stop a else a)"
  have r1: "bf_rate a1 = bf_rate a" "password_attempts a1 = password_attempts a"
    by (simp_all add: a1_def BruteForceAttack_stop_def)
  have g: "(bf_running a1 \<and> now w - t0 < duration) \<longleftrightarrow> now w < loop_deadline t0 duration (stop_at w)"
    unfolding a1_def using less.prems(2) by (rule bf_guard_iff)
  let ?b = "bf_attempt a1 w"
  let ?dl = "loop_deadline t0 duration (stop_at w)"
  let ?r = "rat_of_int (bf_rate a)"
  show ?case
  proof (cases "bf_running a1 \<and> now w - t0 < duration")
    case False
    have "bf_loop t0 duration a w = (None, a1, w)"
      using a1_def False by (rule bf_loop_exit)
    then show ?thesis using False g by (simp add: r1)
  next
    case True
    let ?a2 = "fst (snd ?b)" and ?w2 = "snd (snd ?b)"
    have n: "fst ?b = None" using less.prems(1) by (simp add: r1)
    then have e: "?b = (None, ?a2, ?w2)" by (metis prod.collapse)
    have r: "bf_loop t0 duration a w = bf_loop t0 duration ?a2 ?w2"
      using a1_def True n by (rule bf_loop_step)
    have m: "nat \<lceil>(t0 + duration - now ?w2) * of_int (bf_rate ?a2)\<rceil>
               < nat \<lceil>(t0 + duration - now w) * of_int (bf_rate a)\<rceil>"
      using True e r1 by (intro bf_loop_decreases [of w t0 duration a1 ?a2 ?w2]) auto
    have p2: "0 < bf_rate ?a2" "bf_running ?a2" using less.prems(1) True by (simp_all add: r1)
    let ?n' = "now (snd (snd (bf_loop t0 duration ?a2 ?w2)))"
    have ih: "fst (bf_loop t0 duration ?a2 ?w2) = None"
      "loop_deadline t0 duration (stop_at ?w2) \<le> ?n'"
      "?n' = now ?w2 \<or> ?n' - 1 / of_int (bf_rate ?a2) < loop_deadline t0 duration (stop_at ?w2)"
      "of_nat (password_attempts (fst (snd (bf_loop t0 duration ?a2 ?w2))))
         = of_nat (password_attempts ?a2) + (?n' - now ?w2) * of_int (bf_rate ?a2)"
      using less.hyps [OF m p2] by auto
    have pos1: "0 < bf_rate a1" using less.prems(1) by (simp only: r1(1))
    have "now ?w2 = now w + 1 / of_int (bf_rate a1)" using pos1 by simp
    then have w2a: "now ?w2 = now w + 1 / ?r" by (simp only: r1(1))
    have w2: "now ?w2 = now w + 1 / ?r" "stop_at ?w2 = stop_at w" "bf_rate ?a2 = bf_rate a"
      "password_attempts ?a2 = Suc (password_attempts a)"
      by (rule w2a) (simp_all only: bf_attempt_fields r1)
    have rpos: "0 < ?r" using less.prems(1) by simp
    have c3: "?n' - 1 / ?r < ?dl"
      using ih(3) w2 g True by auto
    have alg: "(x - (y + 1 / ?r)) * ?r = (x - y) * ?r - 1" for x y
      using rpos by (simp add: field_simps)
    have c4: "of_nat (password_attempts (fst (snd (bf_loop t0 duration ?a2 ?w2))))
                     = of_nat (password_attempts a) + (?n' - now w) * ?r"
      unfolding ih(4) w2(1) w2(3) w2(4) alg by simp
    show ?thesis
      unfolding r using ih(1) ih(2) c3 c4 w2(2) by simp
  qed
qed

lemma IoTDevice_init_fields [simp]:
  "now (snd (IoTDevice_init i t h w)) = now w" "timers (snd (IoTDevice_init i t h w)) = timers w"
  "trace (snd (IoTDevice_init i t h w)) = trace w"
  "dev_running (fst (IoTDevice_init i t h w)) = True"
  by (simp_all add: IoTDevice_init_def split_beta)

lemma create_devices_loop_fields [simp]:
  "now (snd (create_devices_loop xs m w)) = now w"
  "timers (snd (create_devices_loop xs m w)) = timers w"
  "sm_config (fst (create_devices_loop xs m w)) = sm_config m"
  by (induction xs arbitrary: m w; simp add: split_beta Let_def)+

lemma create_devices_fields [simp]:
  "now (snd (create_devices m w)) = now w" "timers (snd (create_devices m w)) = timers w"
  "sm_config (fst (create_devices m w)) = sm_config m"
  by (simp_all add: create_devices_def split_beta Let_def)

lemma start_devices_loop_fields [simp]:
  "now (snd (start_devices_loop xs m w)) = now w"
  "timers (snd (start_devices_loop xs m w)) = timers w"
  "sm_config (fst (start_devices_loop xs m w)) = sm_config m"
  by (induction xs arbitrary: m w; simp)+

lemma start_devices_fields [simp]:
  "now (snd (start_devices m w)) = now w" "timers (snd (start_devices m w)) = timers w"
  "sm_config (fst (start_devices m w)) = sm_config m"
  by (simp_all add: start_devices_def)

lemma timer_start_fields [simp]:
  "now (timer_start delay f w) = now w"
  "timers (timer_start delay f w) = timers w @ [(now w + max 0 delay, f)]"
  by (simp_all add: timer_start_def)

lemma IoTDevice_stop_fields [simp]:
  "dev_running (fst (IoTDevice_stop d w)) = False"
  "dev_client (fst (IoTDevice_stop d w)) = dev_client d"
  "now (snd (IoTDevice_stop d w)) = now w"
  "trace (snd (IoTDevice_stop d w)) = trace w @ [LoopStop (dev_client d), Disconnect (dev_client d)]"
  by (simp_all add: IoTDevice_stop_def)

lemma device_loop_cleared:
  assumes "\<not> dev_running d"
  shows "device_loop (Suc k) t0 d w
           = Some (None, if stop_due t0 w then IoTDevice_stop d w else (d, w))"
  using assms by (simp add: split_beta IoTDevice_stop_def)

lemma IoTDevice_start_cleared:
  assumes "\<not> dev_running d"
  shows "\<exists>d' w' es. IoTDevice_start (Suc k) d w = Some (d', w') \<and> \<not> dev_running d' \<and>
           trace w' = trace w @ es \<and> publishes es = []"
proof -
  let ?c = "dev_client d"
  let ?stop = "[LoopStop ?c, Disconnect ?c]"
  let ?w0 = "emit (LoopStart ?c) (emit (Connect ?c True) w)"
  let ?es = "if \<not> connect_ok w ?c
             then [Connect ?c False, LogLine ERROR (DeviceError (dev_id d) ConnectionError)] @ ?stop
             else [Connect ?c True, LoopStart ?c] @ (if stop_due (now w) ?w0 then ?stop else []) @ ?stop"
  let ?r = "if \<not> connect_ok w ?c
            then IoTDevice_stop d (logger ERROR (DeviceError (dev_id d) ConnectionError)
                   (emit (Connect ?c False) w))
            else if stop_due (now w) ?w0
                 then IoTDevice_stop (fst (IoTDevice_stop d ?w0)) (snd (IoTDevice_stop d ?w0))
                 else IoTDevice_stop d ?w0"
  have s: "IoTDevice_start (Suc k) d w = Some ?r"
    by (simp add: IoTDevice_start_def Let_def split_beta device_loop_cleared [OF assms] del: device_loop.simps)
  have f: "\<not> dev_running (fst ?r)" by simp
  have t: "trace (snd ?r) = trace w @ ?es" by simp
  have p: "publishes ?es = []" by simp
  have "IoTDevice_start (Suc k) d w = Some (fst ?r, snd ?r) \<and> \<not> dev_running (fst ?r) \<and>
        trace (snd ?r) = trace w @ ?es \<and> publishes ?es = []"
    using s f t p by simp
  then show ?thesis by blast
qed

lemma IoTDevice_start_ends_cleared:
  "IoTDevice_start fuel d w = Some (d', w') \<Longrightarrow> \<not> dev_running d'"
  by (auto simp: IoTDevice_start_def IoTDevice_stop_def Let_def
        split: if_splits option.splits prod.splits)

lemma BruteForceAttack_start_cleared: "\<not> bf_running (fst (BruteForceAttack_start duration a w))"
  by (simp add: BruteForceAttack_start_def Let_def split_beta)

lemma publish_topics_raise:
  assumes "j < length ts"
    and "\<forall>k<j. publish_res w (n_publish w + k) \<noteq> PubRaise"
    and "publish_res w (n_publish w + j) = PubRaise"
  shows "fst (publish_topics c ts a w) = Some PublishError \<and>
         operations_count (fst (snd (publish_topics c ts a w))) = operations_count a + j \<and>
         (\<exists>es. trace (snd (snd (publish_topics c ts a w))) = trace w @ es \<and>
               map (\<lambda>(c, t, p). (c, t)) (publishes es) = map (Pair c) (take (Suc j) ts) \<and>
               list_all (\<lambda>(c, t, p). payload50 p) (publishes es))"
  using assms
proof (induction ts arbitrary: a w j)
  case Nil
  then show ?case by simp
next
  case (Cons t ts)
  let ?p = "Text (fst (random_string ascii_letters 50 w))"
  let ?w2 = "snd (client_publish c t ?p (snd (random_string ascii_letters 50 w)))"
  let ?a2 = "a\<lparr>operations_count := Suc (operations_count a)\<rparr>"
  let ?e = "Publish c t ?p (publish_res w (n_publish w))"
  have tr: "trace ?w2 = trace w @ [?e]" by simp
  show ?case
  proof (cases j)
    case 0
    then have r: "publish_res w (n_publish w) = PubRaise" using Cons.prems(3) by simp
    have step: "publish_topics c (t # ts) a w = (Some PublishError, a, ?w2)"
      using r by (simp add: split_beta)
    have "trace ?w2 = trace w @ [?e] \<and>
          map (\<lambda>(c, t, p). (c, t)) (publishes [?e]) = map (Pair c) (take (Suc j) (t # ts)) \<and>
          list_all (\<lambda>(c, t, p). payload50 p) (publishes [?e])"
      using tr 0 by simp
    then have "\<exists>es. trace ?w2 = trace w @ es \<and>
          map (\<lambda>(c, t, p). (c, t)) (publishes es) = map (Pair c) (take (Suc j) (t # ts)) \<and>
          list_all (\<lambda>(c, t, p). payload50 p) (publishes es)"
      by (rule exI)
    then show ?thesis unfolding step using 0 by simp
  next
    case (Suc j')
    have first: "publish_res w (n_publish w) \<noteq> PubRaise" using Cons.prems(2) Suc by force
    have step: "publish_topics c (t # ts) a w = publish_topics c ts ?a2 ?w2"
      using first by (simp add: split_beta)
    have a1: "j' < length ts" using Cons.prems(1) Suc by simp
    have a2: "\<forall>k<j'. publish_res ?w2 (n_publish ?w2 + k) \<noteq> PubRaise"
      using Cons.prems(2) Suc by auto
    have a3: "publish_res ?w2 (n_publish ?w2 + j') = PubRaise"
      using Cons.prems(3) Suc by simp
    obtain es where es: "fst (publish_topics c ts ?a2 ?w2) = Some PublishError"
      "operations_count (fst (snd (publish_topics c ts ?a2 ?w2))) = operations_count ?a2 + j'"
      "trace (snd (snd (publish_topics c ts ?a2 ?w2))) = trace ?w2 @ es"
      "map (\<lambda>(c, t, p). (c, t)) (publishes es) = map (Pair c) (take (Suc j') ts)"
      "list_all (\<lambda>(c, t, p). payload50 p) (publishes es)"
      using Cons.IH [where a = ?a2 and w = ?w2 and j = j', OF a1 a2 a3] by blast
    have "trace (snd (snd (publish_topics c ts ?a2 ?w2))) = trace w @ (?e # es) \<and>
          map (\<lambda>(c, t, p). (c, t)) (publishes (?e # es)) = map (Pair c) (take (Suc j) (t # ts)) \<and>
          list_all (\<lambda>(c, t, p). payload50 p) (publishes (?e # es))"
      using es(3,4,5) tr Suc by simp
    then have "\<exists>es. trace (snd (snd (publish_topics c ts ?a2 ?w2))) = trace w @ es \<and>
          map (\<lambda>(c, t, p). (c, t)) (publishes es) = map (Pair c) (take (Suc j) (t # ts)) \<and>
          list_all (\<lambda>(c, t, p). payload50 p) (publishes es)"
      by (rule exI)
    then show ?thesis unfolding step using es(1,2) Suc by simp
  qed
qed

lemma publish_clients_raise:
  assumes "j < length cs * length ts"
    and "\<forall>k<j. publish_res w (n_publish w + k) \<noteq> PubRaise"
    and "publish_res w (n_publish w + j) = PubRaise"
  shows "fst (publish_clients cs ts a w) = Some PublishError \<and>
         operations_count (fst (snd (publish_clients cs ts a w))) = operations_count a + j \<and>
         (\<exists>es. trace (snd (snd (publish_clients cs ts a w))) = trace w @ es \<and>
               map (\<lambda>(c, t, p). (c, t)) (publishes es) = take (Suc j) (List.product cs ts) \<and>
               list_all (\<lambda>(c, t, p). payload50 p) (publishes es))"
  using assms
proof (induction cs arbitrary: a w j)
  case Nil
  then show ?case by simp
next
  case (Cons c cs)
  let ?r = "publish_topics c ts a w"
  show ?case
  proof (cases "j < length ts")
    case True
    obtain es where r: "fst ?r = Some PublishError"
      "operations_count (fst (snd ?r)) = operations_count a + j"
      "trace (snd (snd ?r)) = trace w @ es"
      "map (\<lambda>(c, t, p). (c, t)) (publishes es) = map (Pair c) (take (Suc j) ts)"
      "list_all (\<lambda>(c, t, p). payload50 p) (publishes es)"
      using publish_topics_raise [OF True Cons.prems(2,3), of c a] by blast
    have ne: "fst ?r \<noteq> None" using r(1) by simp
    have step: "publish_clients (c # cs) ts a w = ?r"
      unfolding publish_clients_Cons using ne by (rule if_not_P)
    have tk: "take (Suc j) (List.product (c # cs) ts) = map (Pair c) (take (Suc j) ts)"
      using True by (simp add: take_map)
    have "trace (snd (snd ?r)) = trace w @ es \<and>
          map (\<lambda>(c, t, p). (c, t)) (publishes es) = take (Suc j) (List.product (c # cs) ts) \<and>
          list_all (\<lambda>(c, t, p). payload50 p) (publishes es)"
      unfolding tk using r(3,4,5) by simp
    then have "\<exists>es. trace (snd (snd ?r)) = trace w @ es \<and>
          map (\<lambda>(c, t, p). (c, t)) (publishes es) = take (Suc j) (List.product (c # cs) ts) \<and>
          list_all (\<lambda>(c, t, p). payload50 p) (publishes es)"
      by (rule exI)
    then show ?thesis unfolding step using r(1,2) by simp
  next
    case False
    let ?j' = "j - length ts"
    have jj: "j = length ts + ?j'" using False by simp
    have first: "\<forall>k<length ts. publish_res w (n_publish w + k) \<noteq> PubRaise"
      using Cons.prems(2) False by simp
    obtain es1 where r: "fst ?r = None" "operations_count (fst (snd ?r)) = operations_count a + length ts"
      "n_publish (snd (snd ?r)) = n_publish w + length ts"
      "trace (snd (snd ?r)) = trace w @ es1"
      "map (\<lambda>(c, t, p). (c, t)) (publishes es1) = map (Pair c) ts"
      "list_all (\<lambda>(c, t, p). payload50 p) (publishes es1)"
      using publish_topics_ok [OF first, of c a] by blast
    let ?a1 = "fst (snd ?r)" and ?w1 = "snd (snd ?r)"
    have b1: "?j' < length cs * length ts" using Cons.prems(1) False by simp
    have b2: "\<forall>k<?j'. publish_res ?w1 (n_publish ?w1 + k) \<noteq> PubRaise"
    proof (intro allI impI)
      fix k assume "k < ?j'"
      then have "length ts + k < j" by simp
      then have "publish_res w (n_publish w + (length ts + k)) \<noteq> PubRaise" using Cons.prems(2) by blast
      then show "publish_res ?w1 (n_publish ?w1 + k) \<noteq> PubRaise" using r(3) by (simp add: add.assoc)
    qed
    have "publish_res w (n_publish w + (length ts + ?j')) = PubRaise"
      using Cons.prems(3) jj by simp
    then have b3: "publish_res ?w1 (n_publish ?w1 + ?j') = PubRaise"
      using r(3) by (simp add: add.assoc)
    let ?q = "publish_clients cs ts ?a1 ?w1"
    obtain es2 where q: "fst ?q = Some PublishError"
      "operations_count (fst (snd ?q)) = operations_count ?a1 + ?j'"
      "trace (snd (snd ?q)) = trace ?w1 @ es2"
      "map (\<lambda>(c, t, p). (c, t)) (publishes es2) = take (Suc ?j') (List.product cs ts)"
      "list_all (\<lambda>(c, t, p). payload50 p) (publishes es2)"
      using Cons.IH [where a = ?a1 and w = ?w1 and j = ?j', OF b1 b2 b3] by blast
    have step: "publish_clients (c # cs) ts a w = ?q"
      unfolding publish_clients_Cons using r(1) by (rule if_P)
    have tk: "take (Suc j) (List.product (c # cs) ts) = map (Pair c) ts @ take (Suc ?j') (List.product cs ts)"
      using False by (simp add: Suc_diff_le)
    have "trace (snd (snd ?q)) = trace w @ (es1 @ es2) \<and>
          map (\<lambda>(c, t, p). (c, t)) (publishes (es1 @ es2)) = take (Suc j) (List.product (c # cs) ts) \<and>
          list_all (\<lambda>(c, t, p). payload50 p) (publishes (es1 @ es2))"
      unfolding tk using r(4,5,6) q(3,4,5) by simp
    then have "\<exists>es. trace (snd (snd ?q)) = trace w @ es \<and>
          map (\<lambda>(c, t, p). (c, t)) (publishes es) = take (Suc j) (List.product (c # cs) ts) \<and>
          list_all (\<lambda>(c, t, p). payload50 p) (publishes es)"
      by (rule exI)
    moreover have "operations_count (fst (snd ?q)) = operations_count a + j"
      using q(2) r(2) jj by simp
    ultimately show ?thesis unfolding step using q(1) by simp
  qed
qed

lemma flood_publish_cycle_raise:
  assumes "j < length pool * 10"
    and "\<forall>k<j. publish_res w (n_publish w + k) \<noteq> PubRaise"
    and "publish_res w (n_publish w + j) = PubRaise"
  shows "\<exists>es. trace (snd (flood_publish_cycle pool flood_topics a w))
                 = trace w @ es @ [LogLine ERROR (FloodPublishError PublishError)] \<and>
           map (\<lambda>(c, t, p). (c, t)) (publishes es) = take (Suc j) (List.product pool flood_topics) \<and>
           list_all (\<lambda>(c, t, p). payload50 p) (publishes es) \<and>
           length (publishes es) = Suc j \<and>
           operations_count (fst (flood_publish_cycle pool flood_topics a w)) = operations_count a + j \<and>
           now (snd (flood_publish_cycle pool flood_topics a w)) = now w"
proof -
  let ?r = "publish_clients pool flood_topics a w"
  have h: "j < length pool * length flood_topics" using assms(1) by simp
  obtain es where r: "fst ?r = Some PublishError"
    "operations_count (fst (snd ?r)) = operations_count a + j"
    "trace (snd (snd ?r)) = trace w @ es"
    "map (\<lambda>(c, t, p). (c, t)) (publishes es) = take (Suc j) (List.product pool flood_topics)"
    "list_all (\<lambda>(c, t, p). payload50 p) (publishes es)"
    using publish_clients_raise [OF h assms(2,3), of a] by blast
  have len: "length (publishes es) = Suc j"
    using arg_cong [OF r(4), of length] h by (simp add: min_def)
  have "trace (snd (flood_publish_cycle pool flood_topics a w))
          = trace w @ es @ [LogLine ERROR (FloodPublishError PublishError)] \<and>
        map (\<lambda>(c, t, p). (c, t)) (publishes es) = take (Suc j) (List.product pool flood_topics) \<and>
        list_all (\<lambda>(c, t, p). payload50 p) (publishes es) \<and>
        length (publishes es) = Suc j \<and>
        operations_count (fst (flood_publish_cycle pool flood_topics a w)) = operations_count a + j \<and>
        now (snd (flood_publish_cycle pool flood_topics a w)) = now w"
    using r len by (simp add: flood_publish_cycle_eq)
  then show ?thesis by (rule exI)
qed

lemma flood_publish_cycle_ok:
  assumes "\<forall>k<length pool * 10. publish_res w (n_publish w + k) \<noteq> PubRaise"
  shows "\<exists>es. trace (snd (flood_publish_cycle pool flood_topics a w)) = trace w @ es \<and>
           map (\<lambda>(c, t, p). (c, t)) (publishes es) = List.product pool flood_topics \<and>
           list_all (\<lambda>(c, t, p). payload50 p) (publishes es) \<and>
           length (publishes es) = length pool * 10 \<and>
           operations_count (fst (flood_publish_cycle pool flood_topics a w))
             = operations_count a + length pool * 10 \<and>
           now (snd (flood_publish_cycle pool flood_topics a w)) = now w + 1"
proof -
  let ?r = "publish_clients pool flood_topics a w"
  have h: "\<forall>k<length pool * length flood_topics. publish_res w (n_publish w + k) \<noteq> PubRaise"
    using assms by simp
  obtain es where r: "fst ?r = None"
    "operations_count (fst (snd ?r)) = operations_count a + length pool * length flood_topics"
    "trace (snd (snd ?r)) = trace w @ es"
    "map (\<lambda>(c, t, p). (c, t)) (publishes es) = List.product pool flood_topics"
    "list_all (\<lambda>(c, t, p). payload50 p) (publishes es)"
    using publish_clients_ok [OF h, of a] by blast
  let ?log = "if operations_count (fst (snd ?r)) mod 100 = 0
              then [LogLine INFO (FloodPublished (operations_count (fst (snd ?r))))] else []"
  let ?es = "es @ ?log @ [Sleep 1]"
  have p: "publishes ?es = publishes es" by simp
  have len: "length (publishes es) = length pool * 10"
    using arg_cong [OF r(4), of length] by simp
  have t: "trace (snd (flood_publish_cycle pool flood_topics a w)) = trace w @ ?es"
    using r(1,3) by (simp add: flood_publish_cycle_eq)
  have oc: "operations_count (fst (flood_publish_cycle pool flood_topics a w))
              = operations_count a + length pool * 10"
    using r(1,2) by (simp add: flood_publish_cycle_eq)
  have nw: "now (snd (flood_publish_cycle pool flood_topics a w)) = now w + 1"
    using r(1) by (simp add: flood_publish_cycle_eq)
  have "trace (snd (flood_publish_cycle pool flood_topics a w)) = trace w @ ?es \<and>
        map (\<lambda>(c, t, p). (c, t)) (publishes ?es) = List.product pool flood_topics \<and>
        list_all (\<lambda>(c, t, p). payload50 p) (publishes ?es) \<and>
        length (publishes ?es) = length pool * 10 \<and>
        operations_count (fst (flood_publish_cycle pool flood_topics a w))
          = operations_count a + length pool * 10 \<and>
        now (snd (flood_publish_cycle pool flood_topics a w)) = now w + 1"
    unfolding p using t r(4,5) len oc nw by blast
  then show ?thesis by (rule exI)
qed

subsection \<open>The monitoring loop and the timers\<close>




lemma spawned_append [simp]: "spawned x (es @ es') = spawned x es @ spawned x es'"
  by (induction es rule: spawned.induct) simp_all

lemma spawned_map_Disconnect [simp]: "spawned x (map Disconnect cs) = []"
  by (induction cs) simp_all

lemma timer_callback_fields [simp]:
  "now (snd (timer_callback g m w)) = now w" "stop_at (snd (timer_callback g m w)) = stop_at w"
  "timers (snd (timer_callback g m w)) = timers w"
  "sm_running (fst (timer_callback g m w)) = sm_running m"
  "sm_config (fst (timer_callback g m w)) = sm_config m"
  by (cases g; simp add: start_bruteforce_attack_def start_ddos_attack_def Let_def)+





lemma spawned_map_device [simp]:
  "spawned (thread_of f) (map (\<lambda>i. Spawn t (DeviceThread i)) xs) = []"
  by (induction xs; cases f; simp)

lemma create_devices_loop_frame [simp]:
  "stop_at (snd (create_devices_loop xs m w)) = stop_at w"
  "trace (snd (create_devices_loop xs m w)) = trace w"
  "sm_running (fst (create_devices_loop xs m w)) = sm_running m"
  by (induction xs arbitrary: m w; simp add: split_beta Let_def IoTDevice_init_def new_client_def)+

lemma create_devices_frame [simp]:
  "stop_at (snd (create_devices m w)) = stop_at w"
  "spawned x (trace (snd (create_devices m w))) = spawned x (trace w)"
  "sm_running (fst (create_devices m w)) = sm_running m"
  by (simp_all add: create_devices_def split_beta Let_def)

lemma start_devices_loop_frame [simp]:
  "stop_at (snd (start_devices_loop xs m w)) = stop_at w"
  "spawned (thread_of f) (trace (snd (start_devices_loop xs m w))) = spawned (thread_of f) (trace w)"
  "sm_running (fst (start_devices_loop xs m w)) = sm_running m"
  by (induction xs arbitrary: m w; cases f; simp)+

lemma start_devices_frame [simp]:
  "stop_at (snd (start_devices m w)) = stop_at w"
  "spawned (thread_of f) (trace (snd (start_devices m w))) = spawned (thread_of f) (trace w)"
  "sm_running (fst (start_devices m w)) = sm_running m"
  by (simp_all add: start_devices_def)

lemma stop_devices_frame [simp]:
  "now (snd (stop_devices ds w)) = now w"
  "spawned x (trace (snd (stop_devices ds w))) = spawned x (trace w)"
  by (induction ds arbitrary: w; simp add: split_beta)+

lemma attack_stop_frame [simp]:
  "now (snd (attack_stop a w)) = now w"
  "spawned x (trace (snd (attack_stop a w))) = spawned x (trace w)"
  by (cases a; simp add: split_beta)+

lemma stop_attacks_now [simp]: "now (snd (stop_attacks ats w)) = now w"
proof (induction ats arbitrary: w)
  case Nil
  show ?case by simp
next
  case (Cons p ats)
  show ?case by (cases p) (simp add: split_beta Cons.IH)
qed

lemma stop_attacks_spawned [simp]:
  "spawned x (trace (snd (stop_attacks ats w))) = spawned x (trace w)"
proof (induction ats arbitrary: w)
  case Nil
  show ?case by simp
next
  case (Cons p ats)
  show ?case by (cases p) (simp add: split_beta Cons.IH)
qed

lemma SimulationManager_stop_frame [simp]:
  "now (snd (SimulationManager_stop m w)) = now w"
  "spawned x (trace (snd (SimulationManager_stop m w))) = spawned x (trace w)"
  "\<not> sm_running (fst (SimulationManager_stop m w))"
  by (simp_all add: SimulationManager_stop_def split_beta Let_def)


















section \<open>Properties\<close>

subsection \<open>Random source and rounding\<close>

lemma randint_range:
  assumes "a \<le> b"
  shows "a \<le> fst (randint a b w) \<and> fst (randint a b w) \<le> b"
proof -
  have pos: "0 < nat (b - a + 1)" using assms by simp
  have "fst (draw w) mod nat (b - a + 1) < nat (b - a + 1)"
    using pos by (rule mod_less_divisor)
  then have "int (fst (draw w) mod nat (b - a + 1)) < b - a + 1"
    using assms by linarith
  then show ?thesis by (simp add: randint_def)
qed

lemma random_unit_range: "0 \<le> fst (random_unit w) \<and> fst (random_unit w) < 1"
proof -
  have "fst (draw w) mod 2 ^ 53 < (2::nat) ^ 53" by simp
  then have "(of_nat (fst (draw w) mod 2 ^ 53) :: rat) < of_nat (2 ^ 53)"
    by (simp only: of_nat_less_iff)
  then show ?thesis by (simp add: random_unit_def)
qed

lemma uniform_range:
  assumes "a \<le> b"
  shows "a \<le> fst (uniform a b w) \<and> fst (uniform a b w) \<le> b"
proof -
  let ?u = "fst (random_unit w)"
  have u: "0 \<le> ?u" "?u < 1" using random_unit_range by auto
  have d: "0 \<le> b - a" using assms by simp
  have lo: "0 \<le> (b - a) * ?u" using d u(1) by (rule mult_nonneg_nonneg)
  have "(b - a) * ?u \<le> (b - a) * 1" using d u(2) by (intro mult_left_mono) auto
  then show ?thesis using lo by (simp add: uniform_def)
qed

lemma round_half_even_mono_int:
  "of_int lo \<le> y \<Longrightarrow> y \<le> of_int hi \<Longrightarrow> lo \<le> round_half_even y \<and> round_half_even y \<le> hi"
proof -
  assume lo: "of_int lo \<le> y" and hi: "y \<le> of_int hi"
  have f1: "lo \<le> \<lfloor>y\<rfloor>" using lo by (simp add: le_floor_iff)
  have f2: "\<lfloor>y\<rfloor> \<le> hi" using hi by (simp add: floor_le_iff)
  show ?thesis
  proof (cases "\<lfloor>y\<rfloor> = hi")
    case True
    then have "y - of_int \<lfloor>y\<rfloor> \<le> 0" using hi by simp
    then show ?thesis using f1 True by (simp add: round_half_even_def Let_def)
  next
    case False
    then have "\<lfloor>y\<rfloor> + 1 \<le> hi" using f2 by simp
    then show ?thesis using f1 f2 by (auto simp: round_half_even_def Let_def)
  qed
qed

lemma round2_range:
  assumes "of_int lo \<le> x" "x \<le> of_int hi"
  shows "of_int lo \<le> round2 x \<and> round2 x \<le> of_int hi"
proof -
  have a: "of_int (lo * 100) \<le> x * 100" using assms(1) by simp
  have b: "x * 100 \<le> of_int (hi * 100)" using assms(2) by simp
  have r: "lo * 100 \<le> round_half_even (x * 100) \<and> round_half_even (x * 100) \<le> hi * 100"
    using round_half_even_mono_int [OF a b] .
  have "(of_int (lo * 100) :: rat) \<le> of_int (round_half_even (x * 100))"
    using r by (simp only: of_int_le_iff)
  moreover have "(of_int (round_half_even (x * 100)) :: rat) \<le> of_int (hi * 100)"
    using r by (simp only: of_int_le_iff)
  ultimately show ?thesis by (simp add: round2_def)
qed

subsection \<open>Generated values\<close>

text \<open>
  Claim C8. For every device category, the value a device generates lies within the
  documented range of that category: a temperature in \<open>[15, 30]\<close>, a humidity in
  \<open>[30, 70]\<close>, a luminosity an integer of \<open>[0, 1000]\<close>, and the value of any other
  category an integer of \<open>[0, 100]\<close>. It holds for every device and every state of
  the random generator.
\<close>

theorem generate_data_in_range:
  "in_documented_range (dev_type d) (r_value (fst (generate_data d w)))"
proof -
  have t: "15 \<le> round2 (fst (uniform 15 30 w)) \<and> round2 (fst (uniform 15 30 w)) \<le> 30"
    using round2_range [of 15 "fst (uniform 15 30 w)" 30] uniform_range [of 15 30 w] by simp
  have h: "30 \<le> round2 (fst (uniform 30 70 w)) \<and> round2 (fst (uniform 30 70 w)) \<le> 70"
    using round2_range [of 30 "fst (uniform 30 70 w)" 70] uniform_range [of 30 70 w] by simp
  have l: "0 \<le> fst (randint 0 1000 w) \<and> fst (randint 0 1000 w) \<le> 1000"
    using randint_range [of 0 1000 w] by simp
  have u: "0 \<le> fst (randint 0 100 w) \<and> fst (randint 0 100 w) \<le> 100"
    using randint_range [of 0 100 w] by simp
  show ?thesis
    using t h l u by (simp add: generate_data_def Let_def split_beta)
qed

subsection \<open>Orchestrator shutdown\<close>

text \<open>
  Claim C2. \<^verbatim>\<open>SimulationManager.stop\<close> is idempotent: in the state reached by one call
  the simulation flag is cleared, and a second call returns that state unchanged. The
  state includes the world and with it the trace of every call made on a device or an
  attack, so the second call makes no such call.
\<close>

theorem stop_idempotent:
  "\<not> sm_running (fst (SimulationManager_stop m w)) \<and>
   SimulationManager_stop (fst (SimulationManager_stop m w)) (snd (SimulationManager_stop m w))
     = SimulationManager_stop m w"
  by (simp add: SimulationManager_stop_def Let_def split_beta)

subsection \<open>Publish flood without a reachable broker\<close>

text \<open>
  Claim C5. In publish-flood mode, when none of the five connection attempts of the setup
  succeeds, the actor logs the setup error and returns at once: the call ends normally,
  its events are the start line, the five failed attempts, the error line and the final
  line reporting 0 operations. No publish is made, no time passes, the operation counter
  is 0. Nothing but the actor's own state and these events changes.
\<close>

theorem publish_flood_unreachable:
  assumes "attack_type a = ''publish''"
    and "\<forall>i<5. \<not> connect_ok w (n_client w + i)"
  shows "\<exists>a' w'. DDoSAttack_start fuel duration a w = Some (a', w') \<and>
           operations_count a' = 0 \<and>
           trace w' = trace w @ [LogLine INFO (FloodStarting ''publish'')]
                        @ map (\<lambda>i. Connect (n_client w + i) False) [0..<5]
                        @ [LogLine ERROR FloodNoConnections, LogLine INFO (FloodFinished 0)] \<and>
           publishes (trace w') = publishes (trace w) \<and>
           now w' = now w \<and> n_publish w' = n_publish w \<and> timers w' = timers w"
proof -
  let ?w0 = "logger INFO (FloodStarting ''publish'') w"
  have h: "\<forall>i<length [0..<5]. \<not> connect_ok ?w0 (n_client ?w0 + i)" using assms(2) by simp
  have p: "fst (connect_pool [0..<5] [] ?w0) = [] \<and>
           trace (snd (connect_pool [0..<5] [] ?w0)) =
             trace ?w0 @ map (\<lambda>i. Connect (n_client ?w0 + i) False) [0..<length [0..<5]]"
    using h by (rule connect_pool_unreachable)
  have t: "timers (snd (connect_pool xs base v)) = timers v" for xs base v
    by (induction xs arbitrary: base v) (simp_all add: split_beta)
  show ?thesis
    using p assms(1) by (simp add: DDoSAttack_start_def flood_publish_def Let_def split_beta t)
qed

theorem publish_flood_unreachable_witness:
  "map_option (\<lambda>(a', w'). (operations_count a', publishes (trace w'), now w'))
     (DDoSAttack_start 0 60 (DDoSAttack_init ''publish'' 50) (initial_world (\<lambda>c. False) (\<lambda>k. PubOk)))
   = Some (0, [], 0)"
  using publish_flood_unreachable [of "DDoSAttack_init ''publish'' 50" "initial_world (\<lambda>c. False) (\<lambda>k. PubOk)" 0 60]
  by (auto simp: DDoSAttack_init_def)

subsection \<open>Connection flood: the batch of one cycle\<close>

text \<open>
  Claim C6, as amended. In one cycle of the connection flood the actor makes exactly
  \<open>max 0 (min 10 (rate div 10))\<close> connection attempts, whatever the outcome of each
  attempt: a failed one is swallowed and the rest of the batch follows. For a rate that
  is not negative this is at most \<open>min 10 (rate / 10)\<close>. The operation counter grows by
  the number of attempts that succeeded.
\<close>

theorem flood_connections_cycle_attempts:
  "\<exists>es. trace (snd (flood_connections_cycle a w)) = trace w @ es \<and>
        int (length (connects es)) = max 0 (min 10 (dd_rate a div 10)) \<and>
        (0 \<le> dd_rate a \<longrightarrow>
           int (length (connects es)) \<le> min 10 (dd_rate a div 10) \<and>
           real (length (connects es)) \<le> min 10 (real_of_int (dd_rate a) / 10)) \<and>
        operations_count (fst (flood_connections_cycle a w))
          = operations_count a + length (filter snd (connects es))"
proof -
  let ?n = "nat (min 10 (dd_rate a div 10))"
  obtain es where es: "trace (snd (connect_batch ?n a w)) = trace w @ es"
    "map fst (connects es) = [n_client w..<n_client w + ?n]"
    "operations_count (fst (connect_batch ?n a w)) = operations_count a + length (filter snd (connects es))"
    using connect_batch_events [of ?n a w] by blast
  have len: "length (connects es) = ?n"
    using arg_cong [OF es(2), of length] by simp
  let ?log = "if operations_count (fst (connect_batch ?n a w)) mod 50 = 0
              then [LogLine INFO (FloodConnections (operations_count (fst (connect_batch ?n a w))))] else []"
  have tr: "trace (snd (flood_connections_cycle a w)) = trace w @ (es @ ?log @ [Sleep 1])"
    using es(1) by (simp add: flood_connections_cycle_def split_beta Let_def)
  have cs: "connects (es @ ?log @ [Sleep 1]) = connects es" by simp
  have oc: "operations_count (fst (flood_connections_cycle a w))
              = operations_count a + length (filter snd (connects es))"
    using es(3) by (simp add: flood_connections_cycle_def split_beta Let_def)
  have b1: "int ?n = max 0 (min 10 (dd_rate a div 10))" by simp
  have b2: "0 \<le> dd_rate a \<Longrightarrow> int ?n \<le> min 10 (dd_rate a div 10)" by simp
  have b3: "real ?n \<le> min 10 (real_of_int (dd_rate a) / 10)" if "0 \<le> dd_rate a"
  proof -
    have "real_of_int (dd_rate a div 10) \<le> real_of_int (dd_rate a) / 10"
      by (metis floor_divide_of_int_eq of_int_floor_le of_int_numeral)
    moreover have "real ?n = real_of_int (min 10 (dd_rate a div 10))"
      using that by simp
    ultimately show ?thesis by (simp add: min_def split: if_splits)
  qed
  have "trace (snd (flood_connections_cycle a w)) = trace w @ (es @ ?log @ [Sleep 1]) \<and>
        int (length (connects (es @ ?log @ [Sleep 1]))) = max 0 (min 10 (dd_rate a div 10)) \<and>
        (0 \<le> dd_rate a \<longrightarrow>
           int (length (connects (es @ ?log @ [Sleep 1]))) \<le> min 10 (dd_rate a div 10) \<and>
           real (length (connects (es @ ?log @ [Sleep 1]))) \<le> min 10 (real_of_int (dd_rate a) / 10)) \<and>
        operations_count (fst (flood_connections_cycle a w))
          = operations_count a + length (filter snd (connects (es @ ?log @ [Sleep 1])))"
    unfolding cs len using tr oc b1 b2 b3 by blast
  then show ?thesis by (rule exI [of _ "es @ ?log @ [Sleep 1]"])
qed

theorem flood_connections_cycle_attempts_witness:
  "connects (trace (snd (flood_connections_cycle (DDoSAttack_init ''connection'' 50)
      (initial_world (\<lambda>c. c \<noteq> 1) (\<lambda>k. PubOk)))))
   = [(0, True), (1, False), (2, True), (3, True), (4, True)]"
proof -
  have five: "connect_batch 5 a w = connect_batch (Suc (Suc (Suc (Suc (Suc 0))))) a w" for a w
    by (simp add: eval_nat_numeral)
  show ?thesis
    using flood_connections_cycle_attempts [of "DDoSAttack_init ''connection'' 50" "initial_world (\<lambda>c. c \<noteq> 1) (\<lambda>k. PubOk)"]
    by (simp add: flood_connections_cycle_def DDoSAttack_init_def split_beta Let_def five)
qed

theorem flood_connections_negative_rate_counterexample:
  "\<not> int (length (connects (trace (snd (flood_connections_cycle (DDoSAttack_init ''connection'' (- 5))
          (initial_world (\<lambda>c. True) (\<lambda>k. PubOk)))))))
      \<le> min 10 ((- 5) div 10)"
  by (simp add: flood_connections_cycle_def DDoSAttack_init_def split_beta Let_def)

subsection \<open>Connection flood at a rate below 10\<close>

text \<open>
  Claim C10. A connection-flood actor whose rate is below 10 has a batch bound
  \<open>min 10 (rate div 10)\<close> that is not positive, so no cycle attempts a connection. Over
  the whole of \<^verbatim>\<open>start\<close> no client is made and no connect is called, the operation
  counter is 0 at the end and every progress line reports 0. The actor still sleeps
  its cycles: unless it is stopped from outside, it returns only once the duration has
  passed.
\<close>

theorem connection_flood_low_rate:
  assumes "attack_type a = ''connection''" and "dd_rate a < 10"
  shows "\<exists>a' w' es. DDoSAttack_start fuel duration a w = Some (a', w') \<and>
           trace w' = trace w @ es \<and>
           min 10 (dd_rate a div 10) \<le> 0 \<and>
           connects es = [] \<and> n_client w' = n_client w \<and>
           (\<forall>n. LogLine INFO (FloodConnections n) \<in> set es \<longrightarrow> n = 0) \<and>
           operations_count a' = 0 \<and>
           LogLine INFO (FloodFinished 0) \<in> set es \<and>
           now w \<le> now w' \<and>
           (stop_at w = None \<longrightarrow> now w + duration \<le> now w')"
proof -
  let ?a0 = "a\<lparr>dd_running := True, operations_count := 0\<rparr>"
  let ?w0 = "logger INFO (FloodStarting ''connection'') w"
  let ?r = "flood_connections_loop (now ?w0) duration ?a0 ?w0"
  have p: "dd_rate ?a0 < 10" "operations_count ?a0 = 0" using assms(2) by simp_all
  obtain es where es: "trace (snd ?r) = trace ?w0 @ es" "connects es = []"
    "\<forall>n. LogLine INFO (FloodConnections n) \<in> set es \<longrightarrow> n = 0"
    "operations_count (fst ?r) = 0" "n_client (snd ?r) = n_client ?w0" "now ?w0 \<le> now (snd ?r)"
    "stop_at ?w0 = None \<and> dd_running ?a0 \<longrightarrow> now ?w0 + duration \<le> now (snd ?r)"
    using flood_connections_loop_idle [OF p, of "now ?w0" duration ?w0] by blast
  let ?es = "[LogLine INFO (FloodStarting ''connection'')] @ es @ [LogLine INFO (FloodFinished 0)]"
  have s: "DDoSAttack_start fuel duration a w
             = Some (fst ?r, logger INFO (FloodFinished (operations_count (fst ?r))) (snd ?r))"
    using assms(1) by (simp add: DDoSAttack_start_def flood_connections_def Let_def split_beta)
  have b: "min 10 (dd_rate a div 10) \<le> 0" using assms(2) by simp
  have l: "\<forall>n. LogLine INFO (FloodConnections n) \<in> set ?es \<longrightarrow> n = 0" using es(3) by auto
  have k: "connects ?es = []" using es(2) by simp
  have t: "trace (logger INFO (FloodFinished (operations_count (fst ?r))) (snd ?r)) = trace w @ ?es"
    using es(1,4) by simp
  show ?thesis
    unfolding s using t b k l es(4,5,6,7)
    by (intro exI [of _ "fst ?r"] exI [of _ "logger INFO (FloodFinished (operations_count (fst ?r))) (snd ?r)"]
          exI [of _ ?es]) simp
qed

theorem connection_flood_low_rate_witness:
  "map_option (\<lambda>(a', w'). (operations_count a', connects (trace w'), n_client w', 2 \<le> now w'))
     (DDoSAttack_start 0 2 (DDoSAttack_init ''connection'' 5) (initial_world (\<lambda>c. True) (\<lambda>k. PubOk)))
   = Some (0, [], 0, True)"
  using connection_flood_low_rate [of "DDoSAttack_init ''connection'' 5" 0 2 "initial_world (\<lambda>c. True) (\<lambda>k. PubOk)"]
  by (auto simp: DDoSAttack_init_def)

subsection \<open>Publish flood: the pool is closed on exit\<close>

text \<open>
  Claim C4. Whenever \<^verbatim>\<open>_flood_publish\<close> returns, the last thing it has done is to stop
  the network loop of, and disconnect, every client that connected during its setup, in
  the order of the pool. This holds however the publish loop came to its end: the duration
  is over, the run-flag was cleared from outside, or cycles raised on the way (an
  exception raised in a cycle is caught inside the loop, which goes on to its next test
  and leaves through it).
\<close>

theorem flood_publish_closes_pool:
  assumes "flood_publish fuel duration a w = Some (a', w')"
  shows "\<exists>es. trace w' = trace w @ es @ close_events (opened es)"
proof -
  let ?p = "connect_pool [0..<5] [] w"
  obtain es0 where es0: "trace (snd ?p) = trace w @ es0" "fst ?p = [] @ opened es0"
    using connect_pool_opened [of "[0..<5]" "[]" w] by blast
  show ?thesis
  proof (cases "fst ?p = []")
    case True
    then have "w' = logger ERROR FloodNoConnections (snd ?p)"
      using assms by (simp add: flood_publish_def split_beta)
    then have "trace w' = trace w @ (es0 @ [LogLine ERROR FloodNoConnections])
                 @ close_events (opened (es0 @ [LogLine ERROR FloodNoConnections]))"
      using es0 True by (simp add: close_events_def opened_def)
    then show ?thesis by (rule exI)
  next
    case False
    obtain a1 w2 where l: "flood_publish_loop fuel (now w) duration (fst ?p) flood_topics a (snd ?p) = Some (a1, w2)"
      and w': "w' = close_pool (fst ?p) w2"
      using assms False by (auto simp: flood_publish_def split_beta split: option.splits)
    obtain es1 where es1: "trace w2 = trace (snd ?p) @ es1" "connects es1 = []"
      using flood_publish_loop_no_connect [OF l] by (auto simp: no_connect_def)
    have "trace w' = trace w @ (es0 @ es1) @ close_events (opened (es0 @ es1))"
      using w' es0 es1 by (simp add: opened_no_connects)
    then show ?thesis by (rule exI)
  qed
qed

theorem flood_publish_closes_pool_witness:
  "\<exists>a' w'.
     flood_publish 3 1 \<lparr>attack_type = ''publish'', dd_rate = 50, dd_running = True, clients = [],
         operations_count = 0\<rparr>
       (initial_world (\<lambda>c. c = 0) (\<lambda>k. if k = 0 then PubRaise else PubOk)) = Some (a', w') \<and>
     (\<exists>es. trace w' = es @ close_events (opened es))"
proof -
  let ?a = "\<lparr>attack_type = ''publish'', dd_rate = 50, dd_running = True, clients = [], operations_count = 0\<rparr>"
  let ?w = "initial_world (\<lambda>c. c = 0) (\<lambda>k. if k = 0 then PubRaise else PubOk)"
  have "\<forall>k\<ge>1. publish_res ?w k \<noteq> PubRaise" by simp
  moreover have "(1 - n_publish ?w) + nat \<lceil>1 :: rat\<rceil> < 3" by simp
  ultimately obtain a' w' where h: "flood_publish 3 1 ?a ?w = Some (a', w')"
    using flood_publish_returns [of 1 ?w 1 3 ?a] by blast
  obtain es where "trace w' = trace ?w @ es @ close_events (opened es)"
    using flood_publish_closes_pool [OF h] by blast
  then have "\<exists>es. trace w' = es @ close_events (opened es)" by auto
  then show ?thesis using h by blast
qed

subsection \<open>Publish flood: the publishes of one cycle\<close>

text \<open>
  Claim C7, as amended. A cycle of the publish loop in which no publish call raises makes
  exactly one publish per pooled connection per flood topic, in that order, each with a
  text payload of 50 characters: \<open>length pool * 10\<close> publish calls, since there are 10
  flood topics (50 when all five connections of the setup were made); the operation
  counter grows by one per publish and the cycle ends with its sleep of one second. A
  cycle in which a publish call raises ends at that call: when the first call to raise is
  call number \<open>j\<close> of the cycle (counted from 0), the publish calls made are the first
  \<open>j + 1\<close> of that order, the operation counter grows by \<open>j\<close>, the error is logged and
  no sleep follows.
\<close>

theorem flood_publish_cycle_publishes:
  "((\<forall>k<length pool * 10. publish_res w (n_publish w + k) \<noteq> PubRaise) \<longrightarrow>
      (\<exists>es. trace (snd (flood_publish_cycle pool flood_topics a w)) = trace w @ es \<and>
            map (\<lambda>(c, t, p). (c, t)) (publishes es) = List.product pool flood_topics \<and>
            list_all (\<lambda>(c, t, p). payload50 p) (publishes es) \<and>
            length (publishes es) = length pool * 10 \<and>
            operations_count (fst (flood_publish_cycle pool flood_topics a w))
              = operations_count a + length pool * 10 \<and>
            now (snd (flood_publish_cycle pool flood_topics a w)) = now w + 1)) \<and>
   (\<forall>j<length pool * 10.
      (\<forall>k<j. publish_res w (n_publish w + k) \<noteq> PubRaise) \<and>
      publish_res w (n_publish w + j) = PubRaise \<longrightarrow>
      (\<exists>es. trace (snd (flood_publish_cycle pool flood_topics a w))
                  = trace w @ es @ [LogLine ERROR (FloodPublishError PublishError)] \<and>
            map (\<lambda>(c, t, p). (c, t)) (publishes es) = take (Suc j) (List.product pool flood_topics) \<and>
            list_all (\<lambda>(c, t, p). payload50 p) (publishes es) \<and>
            length (publishes es) = Suc j \<and>
            operations_count (fst (flood_publish_cycle pool flood_topics a w)) = operations_count a + j \<and>
            now (snd (flood_publish_cycle pool flood_topics a w)) = now w))"
proof (intro conjI allI impI)
  assume "\<forall>k<length pool * 10. publish_res w (n_publish w + k) \<noteq> PubRaise"
  then show "\<exists>es. trace (snd (flood_publish_cycle pool flood_topics a w)) = trace w @ es \<and>
            map (\<lambda>(c, t, p). (c, t)) (publishes es) = List.product pool flood_topics \<and>
            list_all (\<lambda>(c, t, p). payload50 p) (publishes es) \<and>
            length (publishes es) = length pool * 10 \<and>
            operations_count (fst (flood_publish_cycle pool flood_topics a w))
              = operations_count a + length pool * 10 \<and>
            now (snd (flood_publish_cycle pool flood_topics a w)) = now w + 1"
    by (rule flood_publish_cycle_ok)
next
  fix j
  assume "j < length pool * 10"
    and "(\<forall>k<j. publish_res w (n_publish w + k) \<noteq> PubRaise) \<and>
         publish_res w (n_publish w + j) = PubRaise"
  then show "\<exists>es. trace (snd (flood_publish_cycle pool flood_topics a w))
                  = trace w @ es @ [LogLine ERROR (FloodPublishError PublishError)] \<and>
            map (\<lambda>(c, t, p). (c, t)) (publishes es) = take (Suc j) (List.product pool flood_topics) \<and>
            list_all (\<lambda>(c, t, p). payload50 p) (publishes es) \<and>
            length (publishes es) = Suc j \<and>
            operations_count (fst (flood_publish_cycle pool flood_topics a w)) = operations_count a + j \<and>
            now (snd (flood_publish_cycle pool flood_topics a w)) = now w"
    using flood_publish_cycle_raise [of j pool w a] by blast
qed

theorem flood_publish_cycle_publishes_witness:
  "length (publishes (trace (snd (flood_publish_cycle [0, 1, 2, 3, 4] flood_topics
       (DDoSAttack_init ''publish'' 50) (initial_world (\<lambda>c. True) (\<lambda>k. PubOk)))))) = 50 \<and>
   operations_count (fst (flood_publish_cycle [0, 1, 2, 3, 4] flood_topics
       (DDoSAttack_init ''publish'' 50) (initial_world (\<lambda>c. True) (\<lambda>k. PubOk)))) = 50 \<and>
   now (snd (flood_publish_cycle [0, 1, 2, 3, 4] flood_topics
       (DDoSAttack_init ''publish'' 50) (initial_world (\<lambda>c. True) (\<lambda>k. PubOk)))) = 1 \<and>
   operations_count (fst (flood_publish_cycle [0, 1, 2, 3, 4] flood_topics
       (DDoSAttack_init ''publish'' 50)
       (initial_world (\<lambda>c. True) (\<lambda>k. if k = 12 then PubRaise else PubOk)))) = 12 \<and>
   now (snd (flood_publish_cycle [0, 1, 2, 3, 4] flood_topics
       (DDoSAttack_init ''publish'' 50)
       (initial_world (\<lambda>c. True) (\<lambda>k. if k = 12 then PubRaise else PubOk)))) = 0"
proof -
  let ?a = "DDoSAttack_init ''publish'' 50"
  have ok: "\<forall>k<length [0, 1, 2, 3, 4 :: nat] * 10.
              publish_res (initial_world (\<lambda>c. True) (\<lambda>k. PubOk))
                (n_publish (initial_world (\<lambda>c. True) (\<lambda>k. PubOk)) + k) \<noteq> PubRaise"
    by simp
  have r: "(12 :: nat) < length [0, 1, 2, 3, 4 :: nat] * 10 \<and>
           ((\<forall>k<12. publish_res (initial_world (\<lambda>c. True) (\<lambda>k. if k = 12 then PubRaise else PubOk))
                (n_publish (initial_world (\<lambda>c. True) (\<lambda>k. if k = 12 then PubRaise else PubOk)) + k) \<noteq> PubRaise) \<and>
            publish_res (initial_world (\<lambda>c. True) (\<lambda>k. if k = 12 then PubRaise else PubOk))
                (n_publish (initial_world (\<lambda>c. True) (\<lambda>k. if k = 12 then PubRaise else PubOk)) + 12) = PubRaise)"
    by simp
  have t1: "\<exists>es. trace (snd (flood_publish_cycle [0, 1, 2, 3, 4] flood_topics ?a (initial_world (\<lambda>c. True) (\<lambda>k. PubOk))))
                = trace (initial_world (\<lambda>c. True) (\<lambda>k. PubOk)) @ es \<and>
            length (publishes es) = length [0, 1, 2, 3, 4 :: nat] * 10 \<and>
            operations_count (fst (flood_publish_cycle [0, 1, 2, 3, 4] flood_topics ?a (initial_world (\<lambda>c. True) (\<lambda>k. PubOk))))
              = operations_count ?a + length [0, 1, 2, 3, 4 :: nat] * 10 \<and>
            now (snd (flood_publish_cycle [0, 1, 2, 3, 4] flood_topics ?a (initial_world (\<lambda>c. True) (\<lambda>k. PubOk))))
              = now (initial_world (\<lambda>c. True) (\<lambda>k. PubOk)) + 1"
    using flood_publish_cycle_publishes [of "[0, 1, 2, 3, 4]" "initial_world (\<lambda>c. True) (\<lambda>k. PubOk)" ?a] ok
    by blast
  have t2: "operations_count (fst (flood_publish_cycle [0, 1, 2, 3, 4] flood_topics ?a
                (initial_world (\<lambda>c. True) (\<lambda>k. if k = 12 then PubRaise else PubOk))))
              = operations_count ?a + 12 \<and>
            now (snd (flood_publish_cycle [0, 1, 2, 3, 4] flood_topics ?a
                (initial_world (\<lambda>c. True) (\<lambda>k. if k = 12 then PubRaise else PubOk))))
              = now (initial_world (\<lambda>c. True) (\<lambda>k. if k = 12 then PubRaise else PubOk))"
    using flood_publish_cycle_publishes [of "[0, 1, 2, 3, 4]"
        "initial_world (\<lambda>c. True) (\<lambda>k. if k = 12 then PubRaise else PubOk)" ?a] r
    by blast
  show ?thesis using t1 t2 by (auto simp: DDoSAttack_init_def)
qed

theorem flood_publish_cycle_raise_counterexample:
  "length (publishes (trace (snd (flood_publish_cycle [0, 1, 2, 3, 4] flood_topics
       (DDoSAttack_init ''publish'' 50)
       (initial_world (\<lambda>c. True) (\<lambda>k. if k = 2 then PubRaise else PubOk)))))) = 3 \<and>
   operations_count (fst (flood_publish_cycle [0, 1, 2, 3, 4] flood_topics
       (DDoSAttack_init ''publish'' 50)
       (initial_world (\<lambda>c. True) (\<lambda>k. if k = 2 then PubRaise else PubOk)))) = 2 \<and>
   length [0, 1, 2, 3, 4 :: nat] * length flood_topics = 50"
  by (simp add: flood_publish_cycle_def flood_topics_list DDoSAttack_init_def split_beta Let_def)

subsection \<open>The credential-guessing actor: end of the loop and final report\<close>

text \<open>
  Claim C9. \<^verbatim>\<open>BruteForceAttack.start\<close> always returns, with the run-flag cleared, and
  the last thing it does is to report the final attempt count; no other final report
  is among its events, whichever way the loop was left (its condition, or an exception
  caught by the \<^verbatim>\<open>except\<close> block). For a positive rate the loop is left at the first
  test of its condition at or after the deadline, the earlier of the end of the
  duration and the clearing of the run-flag from outside: the call ends no earlier than
  the deadline, every attempt made began before the deadline, and the attempt count is
  the rate times the time spent.
\<close>

theorem brute_force_start_ends_and_reports_once:
  "\<exists>a' w' es. BruteForceAttack_start duration a w = (a', w') \<and>
     \<not> bf_running a' \<and>
     trace w' = trace w @ es @ [LogLine INFO (BruteFinished (password_attempts a'))] \<and>
     final_reports es = [] \<and>
     (0 < bf_rate a \<longrightarrow>
        loop_deadline (now w) duration (stop_at w) \<le> now w' \<and>
        (now w' = now w \<or>
         now w' - 1 / of_int (bf_rate a) < loop_deadline (now w) duration (stop_at w)) \<and>
        of_nat (password_attempts a') = (now w' - now w) * of_int (bf_rate a))"
proof -
  let ?a0 = "a\<lparr>bf_running := True, password_attempts := 0\<rparr>"
  let ?w0 = "logger INFO BruteStarting w"
  let ?l = "bf_loop (now w) duration ?a0 ?w0"
  let ?e = "fst ?l" and ?a1 = "fst (snd ?l)" and ?w1 = "snd (snd ?l)"
  let ?w2 = "case ?e of None \<Rightarrow> ?w1 | Some x \<Rightarrow> logger ERROR (BruteError x) ?w1"
  let ?a' = "?a1\<lparr>bf_running := False\<rparr>"
  let ?w' = "logger INFO (BruteFinished (password_attempts ?a1)) ?w2"
  have s: "BruteForceAttack_start duration a w = (?a', ?w')"
    by (simp add: BruteForceAttack_start_def Let_def split_beta)
  have gen: "no_report ?w0 ?w1" "now ?w0 \<le> now ?w1"
    using bf_loop_general [of ?w0 "now w" duration ?a0] by simp_all
  obtain es1 where es1: "trace ?w1 = trace ?w0 @ es1" "final_reports es1 = []"
    using gen(1) by (auto simp: no_report_def)
  define es2 where "es2 = (case ?e of None \<Rightarrow> [] | Some x \<Rightarrow> [LogLine ERROR (BruteError x)])"
  have t2: "trace ?w2 = trace ?w1 @ es2" "final_reports es2 = []" "now ?w2 = now ?w1"
    by (simp_all add: es2_def split: option.splits)
  let ?es = "[LogLine INFO BruteStarting] @ es1 @ es2"
  have t: "trace ?w' = trace w @ ?es @ [LogLine INFO (BruteFinished (password_attempts ?a'))]"
    using es1(1) t2(1) by simp
  have f: "final_reports ?es = []" using es1(2) t2(2) by simp
  have timing: "loop_deadline (now w) duration (stop_at w) \<le> now ?w' \<and>
        (now ?w' = now w \<or>
         now ?w' - 1 / of_int (bf_rate a) < loop_deadline (now w) duration (stop_at w)) \<and>
        of_nat (password_attempts ?a') = (now ?w' - now w) * of_int (bf_rate a)"
    if pos: "0 < bf_rate a"
  proof -
    have p: "0 < bf_rate ?a0" "bf_running ?a0" using pos by simp_all
    have n: "now ?w' = now ?w1" using t2(3) by simp
    show ?thesis
      unfolding n using bf_loop_running [OF p, of "now w" duration ?w0] by simp
  qed
  have "BruteForceAttack_start duration a w = (?a', ?w') \<and>
     \<not> bf_running ?a' \<and>
     trace ?w' = trace w @ ?es @ [LogLine INFO (BruteFinished (password_attempts ?a'))] \<and>
     final_reports ?es = [] \<and>
     (0 < bf_rate a \<longrightarrow>
        loop_deadline (now w) duration (stop_at w) \<le> now ?w' \<and>
        (now ?w' = now w \<or>
         now ?w' - 1 / of_int (bf_rate a) < loop_deadline (now w) duration (stop_at w)) \<and>
        of_nat (password_attempts ?a') = (now ?w' - now w) * of_int (bf_rate a))"
    using s t f timing by simp
  then show ?thesis by blast
qed

theorem brute_force_start_ends_and_reports_once_witness:
  "\<not> bf_running (fst (BruteForceAttack_start 1 (BruteForceAttack_init ''admin'' 2)
         (initial_world (\<lambda>c. False) (\<lambda>k. PubOk)))) \<and>
   final_reports (trace (snd (BruteForceAttack_start 1 (BruteForceAttack_init ''admin'' 2)
         (initial_world (\<lambda>c. False) (\<lambda>k. PubOk)))))
     = [password_attempts (fst (BruteForceAttack_start 1 (BruteForceAttack_init ''admin'' 2)
         (initial_world (\<lambda>c. False) (\<lambda>k. PubOk))))] \<and>
   1 \<le> now (snd (BruteForceAttack_start 1 (BruteForceAttack_init ''admin'' 2)
         (initial_world (\<lambda>c. False) (\<lambda>k. PubOk)))) \<and>
   rat_of_nat (password_attempts (fst (BruteForceAttack_start 1 (BruteForceAttack_init ''admin'' 2)
         (initial_world (\<lambda>c. False) (\<lambda>k. PubOk)))))
     = now (snd (BruteForceAttack_start 1 (BruteForceAttack_init ''admin'' 2)
         (initial_world (\<lambda>c. False) (\<lambda>k. PubOk)))) * 2"
  using brute_force_start_ends_and_reports_once [of 1 "BruteForceAttack_init ''admin'' 2"
      "initial_world (\<lambda>c. False) (\<lambda>k. PubOk)"]
  by (auto simp: BruteForceAttack_init_def loop_deadline_def)

subsection \<open>When the attack actors are started\<close>




subsection \<open>The run-flags of the actors\<close>

text \<open>
  Claim C3, as amended. The run-flag of a device is set when the device is made, is
  cleared by \<^verbatim>\<open>stop()\<close>, and no method sets it again: \<^verbatim>\<open>start()\<close> always ends with the
  flag cleared, and on a device whose flag is cleared it publishes nothing. The run-flag
  of an attack actor is clear when the actor is made, is clear after \<^verbatim>\<open>stop()\<close> and,
  for the credential-guessing actor, after \<^verbatim>\<open>start()\<close> has returned. \<^verbatim>\<open>start()\<close> of an
  attack actor sets the flag without reading it, so what it does is the same whether the
  flag was set or cleared before.
\<close>

theorem run_flag_lifecycle:
  "dev_running (fst (IoTDevice_init i ty h w)) \<and>
   \<not> dev_running (fst (IoTDevice_stop d w)) \<and>
   (IoTDevice_start fuel d w = Some (d', w') \<longrightarrow> \<not> dev_running d') \<and>
   (\<not> dev_running d \<longrightarrow>
      (\<exists>d1 w1 es. IoTDevice_start (Suc fuel) d w = Some (d1, w1) \<and> \<not> dev_running d1 \<and>
                  trace w1 = trace w @ es \<and> publishes es = [])) \<and>
   \<not> bf_running (BruteForceAttack_init u r) \<and>
   \<not> dd_running (DDoSAttack_init aty r) \<and>
   \<not> bf_running (BruteForceAttack_stop a) \<and>
   \<not> dd_running (fst (DDoSAttack_stop b w)) \<and>
   \<not> bf_running (fst (BruteForceAttack_start duration a w)) \<and>
   BruteForceAttack_start duration (a\<lparr>bf_running := x\<rparr>) w = BruteForceAttack_start duration a w \<and>
   DDoSAttack_start fuel duration (b\<lparr>dd_running := x\<rparr>) w = DDoSAttack_start fuel duration b w"
proof -
  have d3: "IoTDevice_start fuel d w = Some (d', w') \<longrightarrow> \<not> dev_running d'"
    using IoTDevice_start_ends_cleared by blast
  have d4: "\<not> dev_running d \<longrightarrow>
      (\<exists>d1 w1 es. IoTDevice_start (Suc fuel) d w = Some (d1, w1) \<and> \<not> dev_running d1 \<and>
                  trace w1 = trace w @ es \<and> publishes es = [])"
    using IoTDevice_start_cleared by blast
  have a4: "BruteForceAttack_start duration (a\<lparr>bf_running := x\<rparr>) w = BruteForceAttack_start duration a w"
    by (simp add: BruteForceAttack_start_def)
  have a5: "DDoSAttack_start fuel duration (b\<lparr>dd_running := x\<rparr>) w = DDoSAttack_start fuel duration b w"
    by (simp add: DDoSAttack_start_def)
  show ?thesis
    using d3 d4 a4 a5 BruteForceAttack_start_cleared [of duration a w]
    by (simp add: BruteForceAttack_init_def DDoSAttack_init_def BruteForceAttack_stop_def)
qed

theorem run_flag_lifecycle_witness:
  "\<exists>d1 w1. IoTDevice_start (Suc 0)
       (fst (IoTDevice_stop (fst (IoTDevice_init ''temperature_1'' ''temperature'' ''ESP32''
                                   (initial_world (\<lambda>c. True) (\<lambda>k. PubOk))))
               (initial_world (\<lambda>c. True) (\<lambda>k. PubOk))))
       (initial_world (\<lambda>c. True) (\<lambda>k. PubOk)) = Some (d1, w1) \<and>
     \<not> dev_running d1 \<and> publishes (trace w1) = []"
  using run_flag_lifecycle [of "''temperature_1''" "''temperature''" "''ESP32''"
      "initial_world (\<lambda>c. True) (\<lambda>k. PubOk)"
      "fst (IoTDevice_stop (fst (IoTDevice_init ''temperature_1'' ''temperature'' ''ESP32''
                                   (initial_world (\<lambda>c. True) (\<lambda>k. PubOk))))
               (initial_world (\<lambda>c. True) (\<lambda>k. PubOk)))" 0]
  by auto

theorem attack_restart_counterexample:
  "\<not> bf_running (BruteForceAttack_init ''admin'' 1) \<and>
   \<not> bf_running (BruteForceAttack_stop (BruteForceAttack_init ''admin'' 1)) \<and>
   password_attempts (fst (BruteForceAttack_start 1 (BruteForceAttack_stop (BruteForceAttack_init ''admin'' 1))
       (initial_world (\<lambda>c. False) (\<lambda>k. PubOk)))) = 1 \<and>
   connects (trace (snd (BruteForceAttack_start 1 (BruteForceAttack_stop (BruteForceAttack_init ''admin'' 1))
       (initial_world (\<lambda>c. False) (\<lambda>k. PubOk))))) = [(0, False)]"
  by (simp add: BruteForceAttack_start_def BruteForceAttack_init_def BruteForceAttack_stop_def
        bf_loop_cases [OF refl] stop_due_def split_beta Let_def bf_attempt_def attempt_login_def)

end
